theory Spec2Isabelle
  imports Main
begin

section \<open>Data model (AVLTree.h)\<close>

text \<open>
  The C++ tree is a graph of heap nodes: each \<^verbatim>\<open>Node\<close> owns its two children through
  \<^verbatim>\<open>std::unique_ptr<Node> children[2]\<close>, stores \<^verbatim>\<open>height\<close>, \<^verbatim>\<open>key\<close> and the state of
  its base class \<^verbatim>\<open>NodeBaseType\<close>, and keeps a raw back pointer \<^verbatim>\<open>parent\<close>.
  Ownership is a tree, so an owning pointer is modelled by the value it owns:
  \<open>Null\<close> is the empty \<^verbatim>\<open>unique_ptr\<close>, \<open>Node l k h s r\<close> a node with
  \<^verbatim>\<open>children[0] = l\<close>, \<^verbatim>\<open>key = k\<close>, \<^verbatim>\<open>height = h\<close>, base-class state \<open>s\<close> and
  \<^verbatim>\<open>children[1] = r\<close>.  An \<^verbatim>\<open>AVLTree\<close> object is its \<^verbatim>\<open>m_root\<close>.

  The tree orders its keys with the comparer \<^verbatim>\<open>m_comp\<close>, except in one place: the
  assertion of MergeWith (line 301) compares two keys with \<^verbatim>\<open>operator<\<close> of the key type
  \<^verbatim>\<open>T\<close>.  The model keeps the two relations apart.  The comparer is the order \<open><\<close> of
  the key type of the model, a linear order: where the source calls \<^verbatim>\<open>m_comp(a, b)\<close> or
  \<^verbatim>\<open>comp(a, b)\<close> the model writes \<open>a < b\<close>, so that an \<^verbatim>\<open>AVLTree<T, Comparer>\<close> is a
  tree over keys ordered the way \<^verbatim>\<open>Comparer\<close> orders them.  \<^verbatim>\<open>operator<\<close> of \<^verbatim>\<open>T\<close> is
  the relation \<open>key_less\<close>, a parameter of MergeWith and of the operations that call it.
  With the default comparer \<^verbatim>\<open>std::less<T>\<close> the relation \<open>key_less\<close> is \<open>(<)\<close>; with
  \<^verbatim>\<open>std::greater<T>\<close> it is the converse of \<open>(<)\<close>.

  A non-owning \<^verbatim>\<open>Node*\<close> into a tree is modelled by the path from the root to the node
  (the list of child indices), \<open>None\<close> being \<^verbatim>\<open>nullptr\<close>.  The back pointer
  \<^verbatim>\<open>p->parent\<close> is then the path without its last step, and
  \<^verbatim>\<open>GetFromParentPointer(p)\<close>, the owning slot of \<open>p\<close>, is the position the path
  names.  This reading of \<^verbatim>\<open>parent\<close> rests on the code keeping the back pointers in
  step with ownership, which it does: every statement that moves an owning pointer is
  followed by the assignment of \<^verbatim>\<open>parent\<close> in the node moved (\<^verbatim>\<open>CheckedSetParent\<close>,
  or the assignment itself in RotateOnce, AddChild, ExtractMax, SetRootAndTwoSubtrees, the
  three cases of Delete and the two steps of Split).  Heights and sizes are \<^verbatim>\<open>size_t\<close>;
  they are bounded by the number of nodes in memory, so they are modelled by \<open>nat\<close>.

  Failures are values: a thrown \<^verbatim>\<open>std::invalid_argument\<close>, a failed \<^verbatim>\<open>assert\<close> and
  a dereferenced null pointer each end the operation with \<open>Inl\<close> of an error.
  Assertions are enabled (\<^verbatim>\<open>NDEBUG\<close> is not defined anywhere in the sources).  An
  assertion that holds by construction of the preceding statements is left out, which the
  text of the function says.  A failed assertion and a null dereference end the program;
  an exception leaves the tree object behind, in the state that the statements before the
  \<^verbatim>\<open>throw\<close> gave it.  Split is the one operation on a tree that throws, so its failures
  say which of the two happened: \<open>Thrown e m_root\<close> is the exception \<open>e\<close> with the tree
  as the throw leaves it, \<open>Aborted e\<close> the end of the program.
\<close>

datatype error = Invalid_argument string | Assertion_failed string | Null_dereference

text \<open>
  \<open>Left\<close> and \<open>Right\<close> are the indices 0 and 1 of \<^verbatim>\<open>children[]\<close>; \<open>other ic\<close> is
  \<^verbatim>\<open>1 - ic\<close>.
\<close>

datatype dir = Left | Right

fun other :: "dir \<Rightarrow> dir" where
  "other Left = Right"
| "other Right = Left"

datatype ('a, 's) tree = Null | Node "('a, 's) tree" 'a nat 's "('a, 's) tree"

datatype ('a, 's) failure = Thrown error "('a, 's) tree" | Aborted error

type_synonym path = "dir list"

text \<open>
  The template parameter \<^verbatim>\<open>NodeBaseType\<close>: its constructor from a key and its
  \<^verbatim>\<open>UpdateNodeState(key, p1, p2)\<close>, which receives the two child pointers as pointers
  to the base class.  Such a pointer gives access to the base-class state of the child and to
  nothing else of the node, so it is passed as \<open>None\<close> when null and as the child's
  base-class state otherwise (\<open>base_view\<close>).
\<close>

record ('a, 's) NodeBaseType =
  construct :: "'a \<Rightarrow> 's"
  UpdateBaseState :: "'a \<Rightarrow> 's option \<Rightarrow> 's option \<Rightarrow> 's"

text \<open>
  Sequencing of fallible steps: the first error ends the operation.
\<close>

definition then_do :: "error + 'a \<Rightarrow> ('a \<Rightarrow> error + 'b) \<Rightarrow> error + 'b" where
  "then_do m f = (case m of Inl e \<Rightarrow> Inl e | Inr x \<Rightarrow> f x)"

text \<open>
  \<open>ht p\<close> is the idiom \<^verbatim>\<open>p ? p->height : 0\<close>; \<open>child\<close> and \<open>set_child\<close> read and
  write \<^verbatim>\<open>children[i]\<close>; \<open>node_at p t\<close> is the node a path points to and
  \<open>replace_at p n t\<close> stores \<open>n\<close> into the owning pointer the path names
  (\<^verbatim>\<open>*GetFromParentPointer(p)\<close>, lines 53-61); \<open>parent p\<close> is \<^verbatim>\<open>p->parent\<close> and
  \<open>is_left_child p\<close> is the test
  \<^verbatim>\<open>p->parent && p == p->parent->children[0].get()\<close>.
\<close>

fun ht :: "('a, 's) tree \<Rightarrow> nat" where
  "ht Null = 0"
| "ht (Node l k h s r) = h"

fun base_view :: "('a, 's) tree \<Rightarrow> 's option" where
  "base_view Null = None"
| "base_view (Node l k h s r) = Some s"

fun child :: "dir \<Rightarrow> ('a, 's) tree \<Rightarrow> ('a, 's) tree" where
  "child d Null = Null"
| "child Left (Node l k h s r) = l"
| "child Right (Node l k h s r) = r"

fun set_child :: "dir \<Rightarrow> ('a, 's) tree \<Rightarrow> ('a, 's) tree \<Rightarrow> ('a, 's) tree" where
  "set_child d c Null = Null"
| "set_child Left c (Node l k h s r) = Node c k h s r"
| "set_child Right c (Node l k h s r) = Node l k h s c"

fun node_at :: "path \<Rightarrow> ('a, 's) tree \<Rightarrow> ('a, 's) tree" where
  "node_at [] t = t"
| "node_at (d # ds) t = node_at ds (child d t)"

fun replace_at :: "path \<Rightarrow> ('a, 's) tree \<Rightarrow> ('a, 's) tree \<Rightarrow> ('a, 's) tree" where
  "replace_at [] n t = n"
| "replace_at (d # ds) n t = set_child d (replace_at ds n (child d t)) t"

fun parent :: "path \<Rightarrow> path option" where
  "parent [] = None"
| "parent (d # ds) = Some (butlast (d # ds))"

definition is_left_child :: "path \<Rightarrow> bool" where
  "is_left_child p = (p \<noteq> [] \<and> last p = Left)"

text \<open>
  \<^verbatim>\<open>new Node(v)\<close> (line 32) and \<^verbatim>\<open>Node::UpdateNodeState\<close> (lines 34-44).
\<close>

definition new_Node :: "('a, 's) NodeBaseType \<Rightarrow> 'a \<Rightarrow> ('a, 's) tree" where
  "new_Node P v = Node Null v 1 (construct P v) Null"

fun UpdateNodeState :: "('a, 's) NodeBaseType \<Rightarrow> ('a, 's) tree \<Rightarrow> ('a, 's) tree" where
  "UpdateNodeState P Null = Null"
| "UpdateNodeState P (Node l k h s r) =
     Node l k (1 + max (ht l) (ht r)) (UpdateBaseState P k (base_view l) (base_view r)) r"

subsection \<open>Rotations and the upward rebalancing walk\<close>

text \<open>
  \<^verbatim>\<open>RotateOnce(p, ic)\<close> (lines 481-501) lifts the child \<^verbatim>\<open>children[ic]\<close> of the node owned
  by \<open>p\<close> into its place and updates the old root only; \<^verbatim>\<open>DoRotations\<close> (lines
  507-520) rotates the taller child first when its inner grandchild is the taller one, then
  the node, and updates the new root.  \<^verbatim>\<open>Rebalance\<close> (lines 522-545) is one pass of its
  body (\<open>Rebalance_node\<close>: the two iterations of the loop over \<open>i\<close>, with the heights
  read once before it, then \<^verbatim>\<open>UpdateNodeState\<close> if nothing was rotated) followed by the
  call on \<^verbatim>\<open>p->parent\<close>, up to the root.
\<close>

definition RotateOnce ::
  "('a, 's) NodeBaseType \<Rightarrow> ('a, 's) tree \<Rightarrow> dir \<Rightarrow> error + ('a, 's) tree" where
  "RotateOnce P p ic =
     (case child ic p of
        Null \<Rightarrow> Inl Null_dereference
      | Node al ak ah as ar \<Rightarrow>
          Inr (set_child (other ic)
                 (UpdateNodeState P (set_child ic (child (other ic) (Node al ak ah as ar)) p))
                 (Node al ak ah as ar)))"

definition DoRotations ::
  "('a, 's) NodeBaseType \<Rightarrow> ('a, 's) tree \<Rightarrow> dir \<Rightarrow> error + ('a, 's) tree" where
  "DoRotations P p ic =
     (case child ic p of
        Null \<Rightarrow> Inl Null_dereference
      | Node al ak ah as ar \<Rightarrow>
          (let hD = ht (child ic (Node al ak ah as ar));
               hE = ht (child (other ic) (Node al ak ah as ar))
           in then_do
                (if hD < hE
                 then then_do (RotateOnce P (Node al ak ah as ar) (other ic))
                        (\<lambda>a. Inr (set_child ic a p))
                 else Inr p)
                (\<lambda>p1. then_do (RotateOnce P p1 ic) (\<lambda>nr. Inr (UpdateNodeState P nr)))))"

definition Rebalance_iteration ::
  "('a, 's) NodeBaseType \<Rightarrow> nat \<Rightarrow> nat \<Rightarrow> dir \<Rightarrow> ('a, 's) tree \<times> bool
     \<Rightarrow> error + (('a, 's) tree \<times> bool)" where
  "Rebalance_iteration P hi ho i st =
     (if hi > ho + 1
      then (if hi = ho + 2
            then then_do (DoRotations P (fst st) i) (\<lambda>p. Inr (p, True))
            else Inl (Assertion_failed ''h[i] == h[1-i] + 2''))
      else Inr st)"

definition Rebalance_node ::
  "('a, 's) NodeBaseType \<Rightarrow> ('a, 's) tree \<Rightarrow> error + ('a, 's) tree" where
  "Rebalance_node P p =
     (case p of
        Null \<Rightarrow> Inl Null_dereference
      | Node l k h s r \<Rightarrow>
          (let h0 = ht l; h1 = ht r
           in then_do (Rebalance_iteration P h0 h1 Left (p, False)) (\<lambda>st0.
              then_do (Rebalance_iteration P h1 h0 Right st0) (\<lambda>st1.
              Inr (if \<not> snd st1 then UpdateNodeState P (fst st1) else fst st1)))))"

function Rebalance ::
  "('a, 's) NodeBaseType \<Rightarrow> path option \<Rightarrow> ('a, 's) tree \<Rightarrow> error + ('a, 's) tree" where
  "Rebalance P None t = Inr t"
| "Rebalance P (Some p) t =
     then_do (Rebalance_node P (node_at p t))
       (\<lambda>n. Rebalance P (parent p) (replace_at p n t))"
  by pat_completeness auto
termination
proof (relation "measure (\<lambda>(P, h, t). case h of None \<Rightarrow> 0 | Some p \<Rightarrow> Suc (length p))")
  fix P :: "('a, 's) NodeBaseType" and p :: path and t n :: "('a, 's) tree"
  show "((P, parent p, replace_at p n t), (P, Some p, t))
          \<in> measure (\<lambda>(P, h, t). case h of None \<Rightarrow> 0 | Some p \<Rightarrow> Suc (length p))"
    by (cases p) auto
qed simp

subsection \<open>Search and insertion\<close>

text \<open>
  \<^verbatim>\<open>FindImpl\<close> (lines 547-567) returns the node with the key or the last node of the
  search path; \<open>below d\<close> turns a pointer into the child \<open>d\<close> into a pointer into the node.
  \<^verbatim>\<open>AddChild\<close> is lines 151-156 and \<^verbatim>\<open>Add\<close> lines 340-360; \<open>Add_finish\<close> is its last
  three statements.  Add returns the boolean and the tree.
\<close>

definition below :: "dir \<Rightarrow> path option \<Rightarrow> path option" where
  "below d h = map_option (\<lambda>p. d # p) h"

fun FindImpl :: "'a::linorder \<Rightarrow> ('a, 's) tree \<Rightarrow> path option" where
  "FindImpl v Null = None"
| "FindImpl v (Node l k h s r) =
     (if v < k then (if l \<noteq> Null then below Left (FindImpl v l) else Some [])
      else if k < v then (if r \<noteq> Null then below Right (FindImpl v r) else Some [])
      else Some [])"

definition Find :: "'a::linorder \<Rightarrow> ('a, 's) tree \<Rightarrow> path option" where
  "Find v m_root = FindImpl v m_root"

definition AddChild ::
  "('a, 's) NodeBaseType \<Rightarrow> path \<Rightarrow> dir \<Rightarrow> 'a \<Rightarrow> ('a, 's) tree \<Rightarrow> error + ('a, 's) tree" where
  "AddChild P p d v m_root =
     (case node_at p m_root of
        Null \<Rightarrow> Inl Null_dereference
      | Node l k h s r \<Rightarrow>
          if child d (Node l k h s r) \<noteq> Null then Inl (Assertion_failed ''!p->children[dir]'')
          else Inr (replace_at p (set_child d (new_Node P v) (Node l k h s r)) m_root))"

definition Add_finish ::
  "('a, 's) NodeBaseType \<Rightarrow> path \<Rightarrow> ('a, 's) tree \<Rightarrow> error + (bool \<times> ('a, 's) tree)" where
  "Add_finish P wh t1 =
     then_do (Rebalance P (parent wh) (replace_at wh (UpdateNodeState P (node_at wh t1)) t1))
       (\<lambda>t2. Inr (True, t2))"

definition Add ::
  "('a::linorder, 's) NodeBaseType \<Rightarrow> 'a \<Rightarrow> ('a, 's) tree \<Rightarrow> error + (bool \<times> ('a, 's) tree)" where
  "Add P v m_root =
     (if m_root = Null then Inr (True, new_Node P v)
      else case Find v m_root of
        None \<Rightarrow> Inl Null_dereference
      | Some wh \<Rightarrow>
          (case node_at wh m_root of
             Null \<Rightarrow> Inl Null_dereference
           | Node l k h s r \<Rightarrow>
               if v < k then then_do (AddChild P wh Left v m_root) (Add_finish P wh)
               else if k < v then then_do (AddChild P wh Right v m_root) (Add_finish P wh)
               else Inr (False, m_root)))"

subsection \<open>Deletion\<close>

text \<open>
  \<open>descend d p\<close> is the loop \<^verbatim>\<open>while (p->children[d]) p = p->children[d].get()\<close>, as a
  path from \<open>p\<close>.  The three cases of \<^verbatim>\<open>Delete\<close> (lines 362-385) are lines 224-232,
  234-243 and 245-271; the node \<open>p\<close> itself is destroyed at the end of each.  The second
  assertion of the last case (\<^verbatim>\<open>!p->children[1]\<close>, after a swap with an empty pointer)
  cannot fail and is left out.
\<close>

function descend :: "dir \<Rightarrow> ('a, 's) tree \<Rightarrow> path" where
  "descend d Null = []"
| "descend d (Node l k h s r) =
     (if child d (Node l k h s r) \<noteq> Null then d # descend d (child d (Node l k h s r)) else [])"
  by pat_completeness auto
termination
proof (relation "measure (\<lambda>(d, t). size t)")
  fix d :: dir and l r :: "('a, 's) tree" and k :: 'a and h :: nat and s :: 's
  show "((d, child d (Node l k h s r)), (d, Node l k h s r)) \<in> measure (\<lambda>(d, t). size t)"
    by (cases d) auto
qed simp

definition DeleteNoRightChild ::
  "('a, 's) NodeBaseType \<Rightarrow> path \<Rightarrow> ('a, 's) tree \<Rightarrow> error + ('a, 's) tree" where
  "DeleteNoRightChild P p m_root =
     Rebalance P (parent p) (replace_at p (child Left (node_at p m_root)) m_root)"

definition DeleteNextIsImmediateChild ::
  "('a, 's) NodeBaseType \<Rightarrow> path \<Rightarrow> ('a, 's) tree \<Rightarrow> error + ('a, 's) tree" where
  "DeleteNextIsImmediateChild P p m_root =
     (let pn = node_at p m_root;
          next = child Right pn
      in if next = Null then Inl Null_dereference
         else Rebalance P (Some p) (replace_at p (set_child Left (child Left pn) next) m_root))"

definition DeleteNextNotImmediateChild ::
  "('a, 's) NodeBaseType \<Rightarrow> path \<Rightarrow> path \<Rightarrow> ('a, 's) tree \<Rightarrow> error + ('a, 's) tree" where
  "DeleteNextNotImmediateChild P p nxt m_root =
     (let pn = node_at p m_root;
          next = node_at nxt m_root
      in if next = Null then Inl Null_dereference
         else if child Left next \<noteq> Null then Inl (Assertion_failed ''!p->children[0]'')
         else
           (let t1 = replace_at nxt (child Right next) m_root;
                pn1 = node_at p t1;
                next1 = set_child Right (child Right pn1) (set_child Left (child Left pn) next)
            in Rebalance P (parent nxt) (replace_at p next1 t1)))"

definition Delete ::
  "('a::linorder, 's) NodeBaseType \<Rightarrow> 'a \<Rightarrow> ('a, 's) tree \<Rightarrow> error + (bool \<times> ('a, 's) tree)" where
  "Delete P v m_root =
     (case Find v m_root of
        None \<Rightarrow> Inr (False, m_root)
      | Some p \<Rightarrow>
          (case node_at p m_root of
             Null \<Rightarrow> Inl Null_dereference
           | Node l k h s r \<Rightarrow>
               if v < k \<or> k < v then Inr (False, m_root)
               else then_do
                 (if r \<noteq> Null
                  then (let nxt = p @ Right # descend Left r
                        in if nxt = p @ [Right] then DeleteNextIsImmediateChild P p m_root
                           else DeleteNextNotImmediateChild P p nxt m_root)
                  else DeleteNoRightChild P p m_root)
                 (\<lambda>t. Inr (True, t))))"

subsection \<open>Join, merge and split\<close>

text \<open>
  \<^verbatim>\<open>GetExtreme\<close> (lines 406-416), \<^verbatim>\<open>ExtractMax\<close> (lines 71-91: the detached node and
  the tree that remains), \<^verbatim>\<open>SetRootAndTwoSubtrees\<close> (lines 93-109: the subtree it leaves
  in \<^verbatim>\<open>fromParent\<close>), \<^verbatim>\<open>MergeWithRoot\<close> (lines 111-149, with its descent loop) and
  \<^verbatim>\<open>MergeWith\<close> (lines 299-309).  The operations on two trees return both: this tree
  and the other one.  \<open>MergeWith_precondition\<close> is the condition that MergeWith asserts,
  \<^verbatim>\<open>!GetRoot() || !t.GetRoot() || GetMax()->GetKey() < t.GetMin()->GetKey()\<close>: its
  comparison is \<^verbatim>\<open>operator<\<close> of the key type, the relation \<open>key_less\<close>, and not the
  comparer.  On two non-empty trees \<^verbatim>\<open>GetMax()\<close> and \<^verbatim>\<open>GetMin()\<close> are nodes, so the
  two default cases of its definition are never taken (\<open>GetMax_key\<close>, \<open>GetMin_key\<close>).
\<close>

definition GetExtreme :: "dir \<Rightarrow> ('a, 's) tree \<Rightarrow> path option" where
  "GetExtreme d m_root = (if m_root = Null then None else Some (descend d m_root))"

definition ExtractMax ::
  "('a, 's) NodeBaseType \<Rightarrow> ('a, 's) tree \<Rightarrow> error + (('a, 's) tree \<times> ('a, 's) tree)" where
  "ExtractMax P m_root =
     (if m_root = Null then Inl (Assertion_failed ''m_root'')
      else (let p = descend Right m_root;
                pn = node_at p m_root
            in then_do (Rebalance P (parent p) (replace_at p (child Left pn) m_root))
                 (\<lambda>t. Inr (set_child Left Null pn, t))))"

definition SetRootAndTwoSubtrees ::
  "('a, 's) NodeBaseType \<Rightarrow> ('a, 's) tree \<Rightarrow> ('a, 's) tree \<Rightarrow> ('a, 's) tree \<Rightarrow> ('a, 's) tree" where
  "SetRootAndTwoSubtrees P newNode child1 child2 =
     UpdateNodeState P (set_child Right child2 (set_child Left child1 newNode))"

function MergeWithRoot_descent :: "dir \<Rightarrow> nat \<Rightarrow> ('a, 's) tree \<Rightarrow> error + path" where
  "MergeWithRoot_descent d hMin Null = Inl Null_dereference"
| "MergeWithRoot_descent d hMin (Node l k h s r) =
     (let hNext = ht (child d (Node l k h s r))
      in if hMin + 1 = hNext \<or> hNext = hMin then Inr []
         else then_do (MergeWithRoot_descent d hMin (child d (Node l k h s r)))
                (\<lambda>p. Inr (d # p)))"
  by pat_completeness auto
termination
proof (relation "measure (\<lambda>(d, hMin, t). size t)")
  fix d :: dir and l r :: "('a, 's) tree" and k :: 'a and h :: nat and s :: 's and hMin :: nat
  show "((d, hMin, child d (Node l k h s r)), (d, hMin, Node l k h s r))
          \<in> measure (\<lambda>(d, hMin, t). size t)"
    by (cases d) auto
qed simp

definition MergeWithRoot ::
  "('a, 's) NodeBaseType \<Rightarrow> ('a, 's) tree \<Rightarrow> ('a, 's) tree \<Rightarrow> ('a, 's) tree
     \<Rightarrow> error + (('a, 's) tree \<times> ('a, 's) tree)" where
  "MergeWithRoot P root m_root rightTree =
     (if \<not> (root \<noteq> Null \<and> child Left root = Null \<and> child Right root = Null)
      then Inl (Assertion_failed ''root && !root->children[0] && !root->children[1]'')
      else
        (let h1 = ht m_root; h2 = ht rightTree
         in if h1 + 1 \<ge> h2 \<and> h1 \<le> h2 + 1
            then Inr (SetRootAndTwoSubtrees P root m_root rightTree, Null)
            else
              (let treeToHang = (if h1 > h2 then rightTree else m_root);
                   d = (if h1 > h2 then Right else Left);
                   hMin = (if h1 > h2 then h2 else h1);
                   tall = (if h1 > h2 then m_root else rightTree)
               in then_do (MergeWithRoot_descent d hMin tall) (\<lambda>p.
                    (let child1 = (if d = Left then treeToHang else child d (node_at p tall));
                         child2 = (if d = Right then treeToHang else child d (node_at p tall));
                         t1 = replace_at (p @ [d])
                                (SetRootAndTwoSubtrees P root child1 child2) tall
                     in then_do (Rebalance P (Some p) t1) (\<lambda>t2. Inr (t2, Null)))))))"

fun GetKey :: "('a, 's) tree \<Rightarrow> 'a option" where
  "GetKey Null = None"
| "GetKey (Node l k h s r) = Some k"

definition GetMax :: "('a, 's) tree \<Rightarrow> path option" where
  "GetMax m_root = GetExtreme Right m_root"

definition GetMin :: "('a, 's) tree \<Rightarrow> path option" where
  "GetMin m_root = GetExtreme Left m_root"

definition MergeWith_precondition ::
  "('a \<Rightarrow> 'a \<Rightarrow> bool) \<Rightarrow> ('a, 's) tree \<Rightarrow> ('a, 's) tree \<Rightarrow> bool" where
  "MergeWith_precondition key_less m_root t =
     (m_root = Null \<or> t = Null \<or>
      (case (GetMax m_root, GetMin t) of
         (Some pmax, Some pmin) \<Rightarrow>
           (case (GetKey (node_at pmax m_root), GetKey (node_at pmin t)) of
              (Some a, Some b) \<Rightarrow> key_less a b
            | _ \<Rightarrow> False)
       | _ \<Rightarrow> False))"

definition MergeWith ::
  "('a \<Rightarrow> 'a \<Rightarrow> bool) \<Rightarrow> ('a, 's) NodeBaseType \<Rightarrow> ('a, 's) tree \<Rightarrow> ('a, 's) tree
     \<Rightarrow> error + (('a, 's) tree \<times> ('a, 's) tree)" where
  "MergeWith key_less P m_root t =
     (if \<not> MergeWith_precondition key_less m_root t
      then Inl (Assertion_failed
                  ''!GetRoot() || !t.GetRoot() || GetMax()->GetKey() < t.GetMin()->GetKey()'')
      else if m_root = Null then Inr (t, m_root)
      else then_do (ExtractMax P m_root) (\<lambda>(mx, rest). MergeWithRoot P mx rest t))"

text \<open>
  \<^verbatim>\<open>Split\<close> (lines 311-335) with \<^verbatim>\<open>PrepareInitialSplittingState\<close> (lines 160-191) and
  \<^verbatim>\<open>DoOneSplittingStep\<close> (lines 196-222).  The state of the walk is this tree and the two
  accumulators \<open>lt\<close> and \<open>rt\<close>; Split returns this tree and the tree it hands back.
  The assertions on \<^verbatim>\<open>fromParent\<close> (lines 169, 199) test the address of a member and
  cannot fail; the one of line 178 says again that \<open>p\<close> is not null.  The exception of
  line 317 is thrown before any statement has written to the tree, so it leaves
  \<^verbatim>\<open>m_root\<close> as it found it; every other failure of Split is a failed assertion or a
  null dereference (\<open>aborting\<close>).
\<close>

definition aborting :: "error + 'b \<Rightarrow> ('a, 's) failure + 'b" where
  "aborting m = (case m of Inl e \<Rightarrow> Inl (Aborted e) | Inr x \<Rightarrow> Inr x)"

definition PrepareInitialSplittingState ::
  "('a \<Rightarrow> 'a \<Rightarrow> bool) \<Rightarrow> ('a, 's) NodeBaseType \<Rightarrow> path \<Rightarrow> bool
     \<Rightarrow> ('a, 's) tree \<times> ('a, 's) tree \<times> ('a, 's) tree
     \<Rightarrow> error + (bool \<times> ('a, 's) tree \<times> ('a, 's) tree \<times> ('a, 's) tree)" where
  "PrepareInitialSplittingState key_less P p nodeGoesLeft st =
     (case st of (m_root, lt, rt) \<Rightarrow>
        (case node_at p m_root of
           Null \<Rightarrow> Inl Null_dereference
         | Node l k h s r \<Rightarrow>
             (let lt1 = l;
                  rt1 = r;
                  res = is_left_child p;
                  m_root1 = replace_at p Null m_root;
                  midTree = UpdateNodeState P (Node lt k h s rt)
              in if nodeGoesLeft
                 then then_do (MergeWith key_less P lt1 midTree)
                        (\<lambda>(lt2, mid2). Inr (res, m_root1, lt2, rt1))
                 else then_do (MergeWith key_less P midTree rt1)
                        (\<lambda>(mid2, rt2). Inr (res, m_root1, lt1, mid2)))))"

definition DoOneSplittingStep ::
  "('a, 's) NodeBaseType \<Rightarrow> path \<Rightarrow> bool
     \<Rightarrow> ('a, 's) tree \<times> ('a, 's) tree \<times> ('a, 's) tree
     \<Rightarrow> error + (bool \<times> ('a, 's) tree \<times> ('a, 's) tree \<times> ('a, 's) tree)" where
  "DoOneSplittingStep P p isLeftChild st =
     (case st of (m_root, lt, rt) \<Rightarrow>
        (case node_at p m_root of
           Null \<Rightarrow> Inl Null_dereference
         | Node l k h s r \<Rightarrow>
             (let res = is_left_child p;
                  d = (if isLeftChild then Left else Right)
              in if child d (Node l k h s r) \<noteq> Null
                 then Inl (Assertion_failed ''!p->children[dir]'')
                 else
                   (let mergedTree = child (other d) (Node l k h s r);
                        root = UpdateNodeState P (set_child (other d) Null (Node l k h s r));
                        m_root1 = replace_at p Null m_root
                    in if isLeftChild
                       then then_do (MergeWithRoot P root rt mergedTree)
                              (\<lambda>(rt1, merged1). Inr (res, m_root1, lt, rt1))
                       else then_do (MergeWithRoot P root mergedTree lt)
                              (\<lambda>(merged1, lt1). Inr (res, m_root1, merged1, rt))))))"

function Split_loop ::
  "('a, 's) NodeBaseType \<Rightarrow> path option \<Rightarrow> bool
     \<Rightarrow> ('a, 's) tree \<times> ('a, 's) tree \<times> ('a, 's) tree
     \<Rightarrow> error + (('a, 's) tree \<times> ('a, 's) tree \<times> ('a, 's) tree)" where
  "Split_loop P None isLeftChild st = Inr st"
| "Split_loop P (Some p) isLeftChild st =
     then_do (DoOneSplittingStep P p isLeftChild st)
       (\<lambda>(nextLeftChild, st1). Split_loop P (parent p) nextLeftChild st1)"
  by pat_completeness auto
termination
proof (relation "measure (\<lambda>(P, h, b, st). case h of None \<Rightarrow> 0 | Some p \<Rightarrow> Suc (length p))")
  fix P :: "('a, 's) NodeBaseType" and p :: path and b b1 :: bool
    and st st1 :: "('a, 's) tree \<times> ('a, 's) tree \<times> ('a, 's) tree"
  show "((P, parent p, b1, st1), (P, Some p, b, st))
          \<in> measure (\<lambda>(P, h, b, st). case h of None \<Rightarrow> 0 | Some p \<Rightarrow> Suc (length p))"
    by (cases p) auto
qed simp

definition Split ::
  "('a \<Rightarrow> 'a \<Rightarrow> bool) \<Rightarrow> ('a, 's) NodeBaseType \<Rightarrow> path option \<Rightarrow> bool \<Rightarrow> ('a, 's) tree
     \<Rightarrow> ('a, 's) failure + (('a, 's) tree \<times> ('a, 's) tree)" where
  "Split key_less P p nodeGoesLeft m_root =
     (if m_root = Null then Inr (m_root, Null)
      else case p of
        None \<Rightarrow> Inl (Thrown (Invalid_argument ''Split: the p argument must be non-null'') m_root)
      | Some pp \<Rightarrow>
          aborting
            (then_do (PrepareInitialSplittingState key_less P pp nodeGoesLeft (m_root, Null, Null))
               (\<lambda>(isLeftChild, st).
                  then_do (Split_loop P (parent pp) isLeftChild st)
                    (\<lambda>(m_root1, lt, rt). Inr (lt, rt)))))"

subsection \<open>Traversal\<close>

text \<open>
  \<^verbatim>\<open>VisitInOrder\<close> (lines 387-391, 448-457): the keys in the order the visitor receives
  them.
\<close>

fun VisitInOrderImpl :: "('a, 's) tree \<Rightarrow> 'a list" where
  "VisitInOrderImpl Null = []"
| "VisitInOrderImpl (Node l k h s r) = VisitInOrderImpl l @ k # VisitInOrderImpl r"

definition VisitInOrder :: "('a, 's) tree \<Rightarrow> 'a list" where
  "VisitInOrder m_root = VisitInOrderImpl m_root"

section \<open>Augmentation policies and derived queries (AVLUtils.h)\<close>

text \<open>
  \<^verbatim>\<open>DefaultNodeBaseType\<close> (AVLTree.h lines 11-15) and \<^verbatim>\<open>TreeSizeNodeBaseType\<close>
  (AVLUtils.h lines 6-22).

  The third policy, \<^verbatim>\<open>SumNodeBaseType\<close> (AVLUtils.h lines 24-44), has no model.  Its
  \<^verbatim>\<open>UpdateNodeState\<close> reads \<^verbatim>\<open>p1->key\<close> and \<^verbatim>\<open>p2->key\<close> (lines 37 and 39) through
  pointers of type \<^verbatim>\<open>const SumNodeBaseType*\<close>, and the only data member of
  \<^verbatim>\<open>SumNodeBaseType\<close> is \<^verbatim>\<open>sum\<close>: the expression names a member that the class does
  not have, so a tree with this policy cannot be instantiated and there is no behaviour to
  model.  (The size policy reads \<^verbatim>\<open>p1->treeSize\<close>, a member of its own class.)
\<close>

definition DefaultNodeBaseType :: "('a, unit) NodeBaseType" where
  "DefaultNodeBaseType =
     \<lparr>construct = (\<lambda>v. ()), UpdateBaseState = (\<lambda>v p1 p2. ())\<rparr>"

definition TreeSizeNodeBaseType :: "('a, nat) NodeBaseType" where
  "TreeSizeNodeBaseType =
     \<lparr>construct = (\<lambda>v. 1),
      UpdateBaseState = (\<lambda>v p1 p2.
        1 + (case p1 of None \<Rightarrow> 0 | Some treeSize1 \<Rightarrow> treeSize1)
          + (case p2 of None \<Rightarrow> 0 | Some treeSize2 \<Rightarrow> treeSize2))\<rparr>"

text \<open>
  \<^verbatim>\<open>GetNthSmallest\<close> (lines 86-109) returns a pointer to a node or throws.

  \<^verbatim>\<open>GetRangeSum\<close> (lines 47-84), with \<open>min_comp\<close> and \<open>max_comp\<close> for
  \<^verbatim>\<open>min(a, b, comp)\<close> and \<^verbatim>\<open>max(a, b, comp)\<close>, is a function template of its own and
  is modelled as it is written, on trees with \<open>int\<close> keys whose base-class state is the
  member \<^verbatim>\<open>sum\<close> that line 63 returns (\<^verbatim>\<open>p->sum\<close>; the member is private, its
  accessor is \<^verbatim>\<open>GetSum()\<close>).  What it computes depends on the sums that the nodes
  store, and no code of the repository that can be instantiated stores any.
\<close>

fun GetSize :: "('a, nat) tree \<Rightarrow> nat" where
  "GetSize Null = 0"
| "GetSize (Node l k h treeSize r) = treeSize"

fun GetNthSmallestImpl :: "('a, nat) tree \<Rightarrow> nat \<Rightarrow> error + path" where
  "GetNthSmallestImpl Null i = Inl (Invalid_argument ''Index out of range'')"
| "GetNthSmallestImpl (Node l k h treeSize r) i =
     (if i \<ge> treeSize then Inl (Invalid_argument ''Index out of range'')
      else (let ls = (if l \<noteq> Null then GetSize l else 0)
            in if i < ls then then_do (GetNthSmallestImpl l i) (\<lambda>p. Inr (Left # p))
               else if i = ls then Inr []
               else then_do (GetNthSmallestImpl r (i - ls - 1)) (\<lambda>p. Inr (Right # p))))"

definition GetNthSmallest :: "('a, nat) tree \<Rightarrow> nat \<Rightarrow> error + path" where
  "GetNthSmallest t i = GetNthSmallestImpl t i"

definition min_comp :: "'a::linorder \<Rightarrow> 'a \<Rightarrow> 'a" where
  "min_comp a b = (if b < a then b else a)"

definition max_comp :: "'a::linorder \<Rightarrow> 'a \<Rightarrow> 'a" where
  "max_comp a b = (if a < b then b else a)"

fun GetRangeSumImpl ::
  "(int, int) tree \<Rightarrow> bool \<Rightarrow> int \<Rightarrow> bool \<Rightarrow> int \<Rightarrow> int \<Rightarrow> int \<Rightarrow> int" where
  "GetRangeSumImpl Null knowMin minV knowMax maxV l h = 0"
| "GetRangeSumImpl (Node c0 k height p_sum c1) knowMin minV knowMax maxV l h =
     (if knowMin \<and> knowMax \<and> \<not> minV < l \<and> \<not> h < maxV then p_sum
      else
        (let res0 = 0;
             res1 = (if \<not> k < l \<and> \<not> h < k then res0 + k else res0);
             res2 = (if (\<not> knowMin \<and> l < k) \<or> \<not> min_comp k h < max_comp minV l
                     then res1 + GetRangeSumImpl c0 knowMin minV True k l h else res1);
             res3 = (if (\<not> knowMax \<and> k < h) \<or> \<not> min_comp maxV h < max_comp k l
                     then res2 + GetRangeSumImpl c1 True k knowMax maxV l h else res2)
         in res3))"

definition GetRangeSum :: "(int, int) tree \<Rightarrow> int \<Rightarrow> int \<Rightarrow> int" where
  "GetRangeSum t lb ub = GetRangeSumImpl t False lb False ub lb ub"

section \<open>Invariants\<close>

text \<open>
  The invariants of the data model.  \<open>avl_balanced\<close> is the balance condition on the
  heights of the subtrees, \<open>heights_ok\<close> the equation for the stored heights; \<open>avl\<close> is
  both, written with the stored heights as the code reads them.  \<open>bst\<close> is the order
  invariant and \<open>state_ok P\<close> says that every node stores what the policy computes from
  its key and its children.
\<close>

fun tree_height :: "('a, 's) tree \<Rightarrow> nat" where
  "tree_height Null = 0"
| "tree_height (Node l k h s r) = 1 + max (tree_height l) (tree_height r)"

fun avl_balanced :: "('a, 's) tree \<Rightarrow> bool" where
  "avl_balanced Null = True"
| "avl_balanced (Node l k h s r) =
     ((tree_height l \<le> tree_height r + 1 \<and> tree_height r \<le> tree_height l + 1)
      \<and> avl_balanced l \<and> avl_balanced r)"

fun heights_ok :: "('a, 's) tree \<Rightarrow> bool" where
  "heights_ok Null = True"
| "heights_ok (Node l k h s r) = (h = 1 + max (ht l) (ht r) \<and> heights_ok l \<and> heights_ok r)"

fun avl :: "('a, 's) tree \<Rightarrow> bool" where
  "avl Null = True"
| "avl (Node l k h s r) =
     (ht l \<le> ht r + 1 \<and> ht r \<le> ht l + 1 \<and> h = 1 + max (ht l) (ht r) \<and> avl l \<and> avl r)"

fun set_tree :: "('a, 's) tree \<Rightarrow> 'a set" where
  "set_tree Null = {}"
| "set_tree (Node l k h s r) = set_tree l \<union> {k} \<union> set_tree r"

definition bst :: "('a::linorder, 's) tree \<Rightarrow> bool" where
  "bst t = sorted_wrt (<) (VisitInOrder t)"

fun state_ok :: "('a, 's) NodeBaseType \<Rightarrow> ('a, 's) tree \<Rightarrow> bool" where
  "state_ok P Null = True"
| "state_ok P (Node l k h s r) =
     (s = UpdateBaseState P k (base_view l) (base_view r) \<and> state_ok P l \<and> state_ok P r)"

text \<open>
  \<open>policy_ok\<close>: a node built by the constructor holds the state of a node without
  children (Add never updates the new leaf itself).  \<open>reachable key_less P\<close> are the
  trees that sequences of the four mutating operations build from the empty tree, each call
  within its precondition: MergeWith on two trees with every key of the first less, in the
  order of the comparer, than every key of the second, Split at a live node.  \<open>Add_all\<close> is
  a sequence of Add calls on one tree.
\<close>

definition policy_ok :: "('a, 's) NodeBaseType \<Rightarrow> bool" where
  "policy_ok P = (\<forall>v. construct P v = UpdateBaseState P v None None)"

inductive reachable ::
  "('a \<Rightarrow> 'a \<Rightarrow> bool) \<Rightarrow> ('a::linorder, 's) NodeBaseType \<Rightarrow> ('a, 's) tree \<Rightarrow> bool"
  for key_less :: "'a \<Rightarrow> 'a \<Rightarrow> bool" and P :: "('a::linorder, 's) NodeBaseType" where
  empty: "reachable key_less P Null"
| add: "reachable key_less P t \<Longrightarrow> Add P v t = Inr (b, t') \<Longrightarrow> reachable key_less P t'"
| delete: "reachable key_less P t \<Longrightarrow> Delete P v t = Inr (b, t') \<Longrightarrow> reachable key_less P t'"
| merge_this:
    "reachable key_less P t \<Longrightarrow> reachable key_less P u \<Longrightarrow>
     \<forall>x \<in> set_tree t. \<forall>y \<in> set_tree u. x < y \<Longrightarrow>
     MergeWith key_less P t u = Inr (t', u') \<Longrightarrow> reachable key_less P t'"
| merge_other:
    "reachable key_less P t \<Longrightarrow> reachable key_less P u \<Longrightarrow>
     \<forall>x \<in> set_tree t. \<forall>y \<in> set_tree u. x < y \<Longrightarrow>
     MergeWith key_less P t u = Inr (t', u') \<Longrightarrow> reachable key_less P u'"
| split_this:
    "reachable key_less P t \<Longrightarrow> node_at p t \<noteq> Null \<Longrightarrow>
     Split key_less P (Some p) nodeGoesLeft t = Inr (t', u') \<Longrightarrow> reachable key_less P t'"
| split_returned:
    "reachable key_less P t \<Longrightarrow> node_at p t \<noteq> Null \<Longrightarrow>
     Split key_less P (Some p) nodeGoesLeft t = Inr (t', u') \<Longrightarrow> reachable key_less P u'"

fun Add_all ::
  "('a::linorder, 's) NodeBaseType \<Rightarrow> 'a list \<Rightarrow> ('a, 's) tree \<Rightarrow> error + ('a, 's) tree" where
  "Add_all P [] t = Inr t"
| "Add_all P (v # vs) t = then_do (Add P v t) (\<lambda>(b, t'). Add_all P vs t')"


section \<open>Keys of type int compared by std::greater\<close>

text \<open>
  An instantiation of the class template in which the comparer is not \<^verbatim>\<open>operator<\<close>:
  \<^verbatim>\<open>AVLTree<int, std::greater<int>>\<close>.  The comparer is the order of the key type of the
  model, so these keys have a type of their own: \<open>Key i\<close> is the \<^verbatim>\<open>int\<close> \<open>i\<close>, and
  \<open>Key a < Key b\<close> is \<^verbatim>\<open>std::greater<int>()(a, b)\<close>, which is \<open>b < a\<close> on the integers.
  \<open>int_less\<close> is \<^verbatim>\<open>operator<\<close> of \<^verbatim>\<open>int\<close> on these keys.
\<close>

datatype greater_int = Key (the_int: int)

instantiation greater_int :: linorder
begin

definition less_eq_greater_int :: "greater_int \<Rightarrow> greater_int \<Rightarrow> bool" where
  "less_eq_greater_int a b = (the_int b \<le> the_int a)"

definition less_greater_int :: "greater_int \<Rightarrow> greater_int \<Rightarrow> bool" where
  "less_greater_int a b = (the_int b < the_int a)"

instance
  by standard (auto simp: less_eq_greater_int_def less_greater_int_def greater_int.expand)

end

definition int_less :: "greater_int \<Rightarrow> greater_int \<Rightarrow> bool" where
  "int_less a b = (the_int a < the_int b)"

section \<open>Notions used in the proofs\<close>

text \<open>
  \<open>node P l k r\<close> is what \<^verbatim>\<open>UpdateNodeState\<close> leaves in a node with children \<open>l\<close>, \<open>r\<close>
  and key \<open>k\<close>.  \<open>slot p t\<close> says that the path \<open>p\<close> names an owning pointer of \<open>t\<close>
  (every node above it exists); \<open>before p t\<close> and \<open>after p t\<close> are the keys that an
  in-order traversal of \<open>t\<close> visits before and after the subtree at \<open>p\<close>.
  \<open>near q t0 t\<close> describes the tree at the start of an upward walk
  \<^verbatim>\<open>Rebalance(q)\<close>: \<open>t\<close> agrees with the balanced tree \<open>t0\<close> on every subtree that hangs
  off the path \<open>q\<close>, and at \<open>q\<close> one child is as in \<open>t0\<close> while the height of the other
  differs by at most one (the stored heights, keys and states of the nodes on the path
  itself are not constrained: the walk writes them before it reads them).
  \<open>state_near P q t\<close> is the same for the base-class state.  \<open>sums_ok\<close> is the sum
  augmentation as the specification describes it: every node stores the sum of the keys of
  its subtree.
\<close>

definition node :: "('a, 's) NodeBaseType \<Rightarrow> ('a, 's) tree \<Rightarrow> 'a \<Rightarrow> ('a, 's) tree \<Rightarrow> ('a, 's) tree" where
  "node P l k r = Node l k (1 + max (ht l) (ht r)) (UpdateBaseState P k (base_view l) (base_view r)) r"

fun near :: "path \<Rightarrow> ('a, 's) tree \<Rightarrow> ('a, 's) tree \<Rightarrow> bool" where
  "near [] t0 t =
     (case (t0, t) of
        (Node l0 k0 h0 s0 r0, Node l k h s r) \<Rightarrow>
          avl l \<and> avl r \<and>
          ((l = l0 \<and> ht r \<le> ht r0 + 1 \<and> ht r0 \<le> ht r + 1) \<or>
           (r = r0 \<and> ht l \<le> ht l0 + 1 \<and> ht l0 \<le> ht l + 1))
      | _ \<Rightarrow> False)"
| "near (d # ds) t0 t =
     (t0 \<noteq> Null \<and> t \<noteq> Null \<and> child (other d) t = child (other d) t0 \<and>
      near ds (child d t0) (child d t))"

fun slot :: "path \<Rightarrow> ('a, 's) tree \<Rightarrow> bool" where
  "slot [] t = True"
| "slot (d # ds) t = (t \<noteq> Null \<and> slot ds (child d t))"

fun before :: "path \<Rightarrow> ('a, 's) tree \<Rightarrow> 'a list" where
  "before [] t = []"
| "before (d # ds) Null = []"
| "before (Left # ds) (Node l k h s r) = before ds l"
| "before (Right # ds) (Node l k h s r) = VisitInOrderImpl l @ k # before ds r"

fun after :: "path \<Rightarrow> ('a, 's) tree \<Rightarrow> 'a list" where
  "after [] t = []"
| "after (d # ds) Null = []"
| "after (Left # ds) (Node l k h s r) = after ds l @ k # VisitInOrderImpl r"
| "after (Right # ds) (Node l k h s r) = after ds r"

fun state_near :: "('a, 's) NodeBaseType \<Rightarrow> path \<Rightarrow> ('a, 's) tree \<Rightarrow> bool" where
  "state_near P [] t = (state_ok P (child Left t) \<and> state_ok P (child Right t))"
| "state_near P (d # ds) t = (state_ok P (child (other d) t) \<and> state_near P ds (child d t))"

fun sums_ok :: "(int, int) tree \<Rightarrow> bool" where
  "sums_ok Null = True"
| "sums_ok (Node l k h s r) =
     (s = sum_list (VisitInOrderImpl (Node l k h s r)) \<and> sums_ok l \<and> sums_ok r)"

definition in_range :: "int \<Rightarrow> int \<Rightarrow> int \<Rightarrow> bool" where
  "in_range lo hi k = (lo \<le> k \<and> k \<le> hi)"

section \<open>Lemmas\<close>

subsection \<open>Sequencing, nodes and one pass of Rebalance\<close>

lemma then_do_Inr [simp]: "then_do (Inr x) f = f x"
  by (simp add: then_do_def)

lemma then_do_Inl [simp]: "then_do (Inl e) f = Inl e"
  by (simp add: then_do_def)

lemma then_do_eq_Inr: "then_do m f = Inr y \<longleftrightarrow> (\<exists>x. m = Inr x \<and> f x = Inr y)"
  by (cases m) auto

lemma other_other [simp]: "other (other d) = d"
  by (cases d) auto

lemma other_neq [simp]: "other d \<noteq> d" "d \<noteq> other d"
  by (cases d; simp)+

lemma UpdateNodeState_node: "UpdateNodeState P (Node l k h s r) = node P l k r"
  by (simp add: node_def)

lemma ht_node [simp]: "ht (node P l k r) = 1 + max (ht l) (ht r)"
  by (simp add: node_def)

lemma inorder_node [simp]: "VisitInOrderImpl (node P l k r) = VisitInOrderImpl l @ k # VisitInOrderImpl r"
  by (simp add: node_def)

lemma avl_node [simp]:
  "avl (node P l k r) \<longleftrightarrow> ht l \<le> ht r + 1 \<and> ht r \<le> ht l + 1 \<and> avl l \<and> avl r"
  by (auto simp: node_def)

lemma state_ok_node [simp]: "state_ok P (node P l k r) \<longleftrightarrow> state_ok P l \<and> state_ok P r"
  by (auto simp: node_def)

lemma node_neq_Null [simp]: "node P l k r \<noteq> Null"
  by (simp add: node_def)

lemma child_node [simp]: "child Left (node P l k r) = l" "child Right (node P l k r) = r"
  by (simp_all add: node_def)

lemma avl_ht_0 [simp]: "avl t \<Longrightarrow> ht t = 0 \<longleftrightarrow> t = Null"
  by (cases t) auto

lemma heights_ok_ht: "heights_ok t \<Longrightarrow> ht t = tree_height t"
  by (induction t) auto

lemma avl_heights_ok: "avl t \<Longrightarrow> heights_ok t"
  by (induction t) auto

lemma avl_iff: "avl t \<longleftrightarrow> avl_balanced t \<and> heights_ok t"
proof (induction t)
  case Null
  show ?case by simp
next
  case (Node l k h s r)
  show ?case
  proof
    assume a: "avl (Node l k h s r)"
    then have "heights_ok l" "heights_ok r" by (auto simp: avl_heights_ok)
    then show "avl_balanced (Node l k h s r) \<and> heights_ok (Node l k h s r)"
      using a Node by (auto simp: heights_ok_ht)
  next
    assume a: "avl_balanced (Node l k h s r) \<and> heights_ok (Node l k h s r)"
    then show "avl (Node l k h s r)"
      using Node by (auto simp: heights_ok_ht)
  qed
qed

text \<open>
  One pass of the body of Rebalance: the two iterations of its loop come to a case
  distinction on the two heights, and the rotations to the usual single and double rotation.
  On a node whose subtrees are balanced and differ in height by at most two, the pass
  succeeds (the assertion holds, no null pointer is read), returns a balanced subtree with
  the same in-order sequence, and lowers the height by at most one.
\<close>

lemma Rebalance_node_simp:
  "Rebalance_node P (Node l k h s r) =
     (if ht l > ht r + 1
      then (if ht l = ht r + 2 then DoRotations P (Node l k h s r) Left
            else Inl (Assertion_failed ''h[i] == h[1-i] + 2''))
      else if ht r > ht l + 1
      then (if ht r = ht l + 2 then DoRotations P (Node l k h s r) Right
            else Inl (Assertion_failed ''h[i] == h[1-i] + 2''))
      else Inr (node P l k r))"
  by (auto simp: Rebalance_node_def Rebalance_iteration_def Let_def then_do_def node_def
           split: sum.splits)

lemma DoRotations_Left:
  "DoRotations P (Node (Node ll lk lh ls lr) k h s r) Left =
     (if ht ll < ht lr
      then (case lr of Null \<Rightarrow> Inl Null_dereference
            | Node a ek eh es b \<Rightarrow> Inr (node P (node P ll lk a) ek (node P b k r)))
      else Inr (node P ll lk (node P lr k r)))"
  by (auto simp: DoRotations_def RotateOnce_def Let_def node_def split: tree.splits)

lemma DoRotations_Right:
  "DoRotations P (Node l k h s (Node rl rk rh rs rr)) Right =
     (if ht rr < ht rl
      then (case rl of Null \<Rightarrow> Inl Null_dereference
            | Node a ek eh es b \<Rightarrow> Inr (node P (node P l k a) ek (node P b rk rr)))
      else Inr (node P (node P l k rl) rk rr))"
  by (auto simp: DoRotations_def RotateOnce_def Let_def node_def split: tree.splits)

lemma Rebalance_node_avl:
  assumes "avl l" "avl r" "ht l \<le> ht r + 2" "ht r \<le> ht l + 2"
  shows "\<exists>n. Rebalance_node P (Node l k h s r) = Inr n \<and> avl n \<and> n \<noteq> Null
           \<and> VisitInOrderImpl n = VisitInOrderImpl l @ k # VisitInOrderImpl r
           \<and> ht n \<le> 1 + max (ht l) (ht r) \<and> max (ht l) (ht r) \<le> ht n
           \<and> (ht l \<le> ht r + 1 \<and> ht r \<le> ht l + 1 \<longrightarrow> ht n = 1 + max (ht l) (ht r))"
proof -
  consider (bal) "ht l \<le> ht r + 1" "ht r \<le> ht l + 1"
    | (left) "ht l = ht r + 2" | (right) "ht r = ht l + 2"
    using assms by linarith
  then show ?thesis
  proof cases
    case bal
    then show ?thesis using assms by (auto simp: Rebalance_node_simp)
  next
    case left
    then obtain ll lk lh ls lr where l: "l = Node ll lk lh ls lr"
      by (cases l) auto
    show ?thesis
    proof (cases "ht ll < ht lr")
      case True
      then obtain a ek eh es b where lr: "lr = Node a ek eh es b"
        by (cases lr) auto
      show ?thesis using assms left True
        by (auto simp: Rebalance_node_simp DoRotations_Left l lr)
    next
      case False
      then show ?thesis using assms left
        by (auto simp: Rebalance_node_simp DoRotations_Left l)
    qed
  next
    case right
    then obtain rl rk rh rs rr where r: "r = Node rl rk rh rs rr"
      by (cases r) auto
    show ?thesis
    proof (cases "ht rr < ht rl")
      case True
      then obtain a ek eh es b where rl: "rl = Node a ek eh es b"
        by (cases rl) auto
      show ?thesis using assms right True
        by (auto simp: Rebalance_node_simp DoRotations_Right r rl)
    next
      case False
      then show ?thesis using assms right
        by (auto simp: Rebalance_node_simp DoRotations_Right r)
    qed
  qed
qed

subsection \<open>The upward walk\<close>

text \<open>
  Rebalance is written as the code has it, from the node up.  \<open>Rebalance_Cons\<close> turns it
  around: the walk from a node below the root is the walk inside the child followed by one
  pass at the root.  \<open>Rebalance_walk\<close> is the property every mutating operation uses.
\<close>

lemma then_do_assoc: "then_do (then_do m f) g = then_do m (\<lambda>x. then_do (f x) g)"
  by (cases m) auto

lemma then_do_Inr_right [simp]: "then_do m Inr = m"
  by (cases m) auto

lemma node_at_append [simp]: "node_at (p @ q) t = node_at q (node_at p t)"
  by (induction p arbitrary: t) auto

lemma replace_at_append: "replace_at (p @ q) n t = replace_at p (replace_at q n (node_at p t)) t"
  by (induction p arbitrary: t) auto

lemma child_set_child_same [simp]: "t \<noteq> Null \<Longrightarrow> child d (set_child d c t) = c"
  by (cases t; cases d) auto

lemma child_set_child_other [simp]: "child (other d) (set_child d c t) = child (other d) t"
  by (cases t; cases d) auto

lemma child_set_child_other' [simp]: "child d (set_child (other d) c t) = child d t"
  by (cases t; cases d) auto

lemma set_child_set_child [simp]: "set_child d c (set_child d c' t) = set_child d c t"
  by (cases t; cases d) auto

lemma set_child_eq_Null [simp]: "set_child d c t = Null \<longleftrightarrow> t = Null"
  by (cases t; cases d) auto

lemma Rebalance_root [simp]: "Rebalance P (Some []) t = Rebalance_node P t"
  by simp

lemma Rebalance_node_Null [simp]: "Rebalance_node P Null = Inl Null_dereference"
  by (simp add: Rebalance_node_def)

lemma node_at_Null [simp]: "node_at p Null = Null"
  by (induction p) auto

lemma replace_at_Null: "p \<noteq> [] \<Longrightarrow> replace_at p n Null = Null"
  by (cases p) auto

lemma Rebalance_Cons:
  "Rebalance P (Some (d # ds)) t =
     then_do (Rebalance P (Some ds) (child d t)) (\<lambda>c. Rebalance_node P (set_child d c t))"
proof (induction ds arbitrary: t rule: rev_induct)
  case Nil
  show ?case by (simp del: Rebalance.simps add: Rebalance.simps(2)[of P "[d]"])
next
  case (snoc e ds)
  have "Rebalance P (Some (d # ds @ [e])) t =
          then_do (Rebalance_node P (node_at (ds @ [e]) (child d t)))
            (\<lambda>n. Rebalance P (Some (d # ds)) (replace_at (d # ds @ [e]) n t))"
    by (simp add: butlast_append)
  also have "\<dots> = then_do (Rebalance_node P (node_at (ds @ [e]) (child d t)))
            (\<lambda>n. then_do (Rebalance P (Some ds) (replace_at (ds @ [e]) n (child d t)))
                    (\<lambda>c. Rebalance_node P (set_child d c t)))"
  proof (cases t)
    case Null
    then show ?thesis by (simp del: Rebalance.simps)
  next
    case (Node l k h s r)
    then show ?thesis by (simp del: Rebalance.simps add: snoc.IH)
  qed
  also have "\<dots> = then_do (Rebalance P (Some (ds @ [e])) (child d t))
                      (\<lambda>c. Rebalance_node P (set_child d c t))"
    by (simp add: butlast_append then_do_assoc del: replace_at.simps)
       (cases ds; simp add: then_do_assoc)
  finally show ?case by simp
qed

lemma Rebalance_walk:
  assumes "avl t0" "near q t0 t"
  shows "\<exists>t'. Rebalance P (Some q) t = Inr t' \<and> avl t' \<and> t' \<noteq> Null
           \<and> VisitInOrderImpl t' = VisitInOrderImpl t
           \<and> ht t' \<le> ht t0 + 1 \<and> ht t0 \<le> ht t' + 1"
  using assms
proof (induction q arbitrary: t0 t)
  case Nil
  from Nil.prems(2) obtain l0 k0 h0 s0 r0 l k h s r
    where t0: "t0 = Node l0 k0 h0 s0 r0" and t: "t = Node l k h s r"
    by (cases t0; cases t) auto
  from Nil.prems t0 t have a: "avl l" "avl r"
    and c: "(l = l0 \<and> ht r \<le> ht r0 + 1 \<and> ht r0 \<le> ht r + 1) \<or>
            (r = r0 \<and> ht l \<le> ht l0 + 1 \<and> ht l0 \<le> ht l + 1)"
    by auto
  from Nil.prems(1) t0 have b: "ht l0 \<le> ht r0 + 1" "ht r0 \<le> ht l0 + 1"
    "h0 = 1 + max (ht l0) (ht r0)" by auto
  have d: "ht l \<le> ht r + 2" "ht r \<le> ht l + 2" using b c by auto
  from Rebalance_node_avl[OF a d, of P k h s] obtain n where
    n: "Rebalance_node P (Node l k h s r) = Inr n" "avl n" "n \<noteq> Null"
       "VisitInOrderImpl n = VisitInOrderImpl l @ k # VisitInOrderImpl r"
       "ht n \<le> 1 + max (ht l) (ht r)" "max (ht l) (ht r) \<le> ht n"
       "ht l \<le> ht r + 1 \<and> ht r \<le> ht l + 1 \<longrightarrow> ht n = 1 + max (ht l) (ht r)"
    by blast
  have "ht n \<le> ht t0 + 1 \<and> ht t0 \<le> ht n + 1"
    using n(5,6,7) b c t0 by (auto simp: max_def split: if_splits)
  then show ?case using n t by (simp del: Rebalance.simps)
next
  case (Cons d ds)
  from Cons.prems(2) obtain l0 k0 h0 s0 r0 l k h s r
    where t0: "t0 = Node l0 k0 h0 s0 r0" and t: "t = Node l k h s r"
    by (cases t0; cases t) auto
  from Cons.prems t0 t have same: "child (other d) t = child (other d) t0"
    and nr: "near ds (child d t0) (child d t)" by auto
  from Cons.prems(1) t0 have b: "ht l0 \<le> ht r0 + 1" "ht r0 \<le> ht l0 + 1"
    "h0 = 1 + max (ht l0) (ht r0)" "avl l0" "avl r0" by auto
  have ac: "avl (child d t0)" using b t0 by (cases d) auto
  from Cons.IH[OF ac nr] obtain c where
    c: "Rebalance P (Some ds) (child d t) = Inr c" "avl c" "c \<noteq> Null"
       "VisitInOrderImpl c = VisitInOrderImpl (child d t)"
       "ht c \<le> ht (child d t0) + 1" "ht (child d t0) \<le> ht c + 1"
    by blast
  show ?case
  proof (cases d)
    case Left
    with same t0 t have r: "r = r0" by simp
    have d2: "ht c \<le> ht r + 2" "ht r \<le> ht c + 2" using c(5,6) b r Left t0 by auto
    from Rebalance_node_avl[OF c(2) _ d2, of P k h s] b r obtain n where
      n: "Rebalance_node P (Node c k h s r) = Inr n" "avl n" "n \<noteq> Null"
       "VisitInOrderImpl n = VisitInOrderImpl c @ k # VisitInOrderImpl r"
       "ht n \<le> 1 + max (ht c) (ht r)" "max (ht c) (ht r) \<le> ht n"
       "ht c \<le> ht r + 1 \<and> ht r \<le> ht c + 1 \<longrightarrow> ht n = 1 + max (ht c) (ht r)"
      by blast
    have "ht n \<le> ht t0 + 1 \<and> ht t0 \<le> ht n + 1"
      using n(5,6,7) b c(5,6) r t0 Left by (auto simp: max_def split: if_splits)
    then show ?thesis using n c t Left
      by (simp add: Rebalance_Cons del: Rebalance.simps)
  next
    case Right
    with same t0 t have l: "l = l0" by simp
    have d2: "ht l \<le> ht c + 2" "ht c \<le> ht l + 2" using c(5,6) b l Right t0 by auto
    from Rebalance_node_avl[OF _ c(2) d2, of P k h s] b l obtain n where
      n: "Rebalance_node P (Node l k h s c) = Inr n" "avl n" "n \<noteq> Null"
       "VisitInOrderImpl n = VisitInOrderImpl l @ k # VisitInOrderImpl c"
       "ht n \<le> 1 + max (ht l) (ht c)" "max (ht l) (ht c) \<le> ht n"
       "ht l \<le> ht c + 1 \<and> ht c \<le> ht l + 1 \<longrightarrow> ht n = 1 + max (ht l) (ht c)"
      by blast
    have "ht n \<le> ht t0 + 1 \<and> ht t0 \<le> ht n + 1"
      using n(5,6,7) b c(5,6) l t0 Right by (auto simp: max_def split: if_splits)
    then show ?thesis using n c t Right
      by (simp add: Rebalance_Cons del: Rebalance.simps)
  qed
qed

subsection \<open>Paths and in-order contexts\<close>

lemma node_at_slot: "node_at p t \<noteq> Null \<Longrightarrow> slot p t"
  by (induction p arbitrary: t) auto

lemma slot_snoc: "slot (q @ [d]) t \<longleftrightarrow> node_at q t \<noteq> Null"
proof (induction q arbitrary: t)
  case Nil
  show ?case by simp
next
  case (Cons e q)
  show ?case by (cases t) (auto simp: Cons.IH)
qed

lemma inorder_ctx:
  "slot p t \<Longrightarrow> VisitInOrderImpl t = before p t @ VisitInOrderImpl (node_at p t) @ after p t"
proof (induction p arbitrary: t)
  case Nil
  show ?case by simp
next
  case (Cons d p)
  then obtain l k h s r where t: "t = Node l k h s r" by (cases t) auto
  show ?case using Cons t by (cases d) auto
qed

lemma inorder_replace_at:
  "slot p t \<Longrightarrow> VisitInOrderImpl (replace_at p n t) = before p t @ VisitInOrderImpl n @ after p t"
proof (induction p arbitrary: t)
  case Nil
  show ?case by simp
next
  case (Cons d p)
  then obtain l k h s r where t: "t = Node l k h s r" by (cases t) auto
  show ?case using Cons t by (cases d) auto
qed

lemma node_at_replace_at [simp]: "slot p t \<Longrightarrow> node_at p (replace_at p n t) = n"
proof (induction p arbitrary: t)
  case Nil
  show ?case by simp
next
  case (Cons d p)
  then show ?case by (cases t; cases d) auto
qed

lemma replace_at_replace_at [simp]: "replace_at p n (replace_at p m t) = replace_at p n t"
proof (induction p arbitrary: t)
  case Nil
  show ?case by simp
next
  case (Cons d p)
  show ?case by (cases t; cases d) (auto simp: Cons)
qed

lemma slot_replace_at [simp]: "slot p (replace_at p n t) = slot p t"
proof (induction p arbitrary: t)
  case Nil
  show ?case by simp
next
  case (Cons d p)
  show ?case by (cases t; cases d) (auto simp: Cons)
qed

lemma avl_child: "avl t \<Longrightarrow> avl (child d t)"
  by (cases t; cases d) auto

lemma avl_node_at: "avl t \<Longrightarrow> avl (node_at p t)"
  by (induction p arbitrary: t) (auto simp: avl_child)

lemma near_replace_snoc:
  assumes "avl t" "node_at q t \<noteq> Null" "avl c"
    "ht c \<le> ht (node_at (q @ [d]) t) + 1" "ht (node_at (q @ [d]) t) \<le> ht c + 1"
  shows "near q t (replace_at (q @ [d]) c t)"
  using assms
proof (induction q arbitrary: t)
  case Nil
  then obtain l k h s r where t: "t = Node l k h s r" by (cases t) auto
  show ?case using Nil t by (cases d) auto
next
  case (Cons e q)
  then obtain l k h s r where t: "t = Node l k h s r" by (cases t) auto
  have "near q (child e t) (replace_at (q @ [d]) c (child e t))"
    using Cons.prems by (intro Cons.IH) (auto simp: avl_child)
  then show ?case using t by (cases e) auto
qed

subsection \<open>Search\<close>

lemma set_inorder: "set (VisitInOrderImpl t) = set_tree t"
  by (induction t) auto

lemma bst_Node:
  "bst (Node l k h s r) \<longleftrightarrow>
     bst l \<and> bst r \<and> (\<forall>x \<in> set_tree l. x < k) \<and> (\<forall>x \<in> set_tree r. k < x)"
  by (auto simp: bst_def VisitInOrder_def sorted_wrt_append set_inorder)
     (meson less_trans)

lemma bst_Null [simp]: "bst Null"
  by (simp add: bst_def VisitInOrder_def)

lemma Find_valid: "t \<noteq> Null \<Longrightarrow> \<exists>w. Find v t = Some w \<and> node_at w t \<noteq> Null"
  unfolding Find_def
proof (induction t)
  case Null
  then show ?case by simp
next
  case (Node l k h s r)
  then show ?case by (auto simp: below_def)
qed

lemma Find_present:
  "bst t \<Longrightarrow> v \<in> set_tree t \<Longrightarrow> Find v t = Some w \<Longrightarrow> GetKey (node_at w t) = Some v"
  unfolding Find_def
proof (induction t arbitrary: w)
  case Null
  then show ?case by simp
next
  case (Node l k h s r)
  then show ?case
    by (fastforce simp: below_def bst_Node split: if_splits)
qed

lemma Find_absent:
  "v \<notin> set_tree t \<Longrightarrow> Find v t = Some w \<Longrightarrow> node_at w t = Node l k h s r \<Longrightarrow>
     (v < k \<and> l = Null) \<or> (k < v \<and> r = Null)"
  unfolding Find_def
proof (induction t arbitrary: w)
  case Null
  then show ?case by simp
next
  case (Node l' k' h' s' r')
  then show ?case
    by (fastforce simp: below_def split: if_splits)
qed

lemma Find_bounds:
  "bst t \<Longrightarrow> Find v t = Some w \<Longrightarrow>
     (\<forall>x \<in> set (before w t). x < v) \<and> (\<forall>x \<in> set (after w t). v < x)"
  unfolding Find_def
proof (induction t arbitrary: w)
  case Null
  then show ?case by simp
next
  case (Node l k h s r)
  then show ?case
    by (fastforce simp: below_def bst_Node set_inorder split: if_splits)
qed

subsection \<open>The base-class state along the walk\<close>

lemma state_ok_child: "state_ok P t \<Longrightarrow> state_ok P (child d t)"
  by (cases t; cases d) auto

lemma state_ok_node_at: "state_ok P t \<Longrightarrow> state_ok P (node_at p t)"
  by (induction p arbitrary: t) (auto simp: state_ok_child)

lemma state_near_Null [simp]: "state_near P q Null"
  by (induction q) auto

lemma Rebalance_node_state:
  assumes "Rebalance_node P n = Inr n'" "state_ok P (child Left n)" "state_ok P (child Right n)"
  shows "state_ok P n'"
proof (cases n)
  case Null
  then show ?thesis using assms by simp
next
  case (Node l k h s r)
  consider (bal) "ht l \<le> ht r + 1" "ht r \<le> ht l + 1"
    | (left) "ht l > ht r + 1" | (right) "ht r > ht l + 1" by linarith
  then show ?thesis
  proof cases
    case bal
    then show ?thesis using assms Node by (auto simp: Rebalance_node_simp)
  next
    case left
    then obtain ll lk lh ls lr where l: "l = Node ll lk lh ls lr" by (cases l) auto
    show ?thesis using assms Node left
      by (auto simp: Rebalance_node_simp DoRotations_Left l split: if_splits tree.splits)
  next
    case right
    then obtain rl rk rh rs rr where r: "r = Node rl rk rh rs rr" by (cases r) auto
    show ?thesis using assms Node right
      by (auto simp: Rebalance_node_simp DoRotations_Right r split: if_splits tree.splits)
  qed
qed

lemma Rebalance_walk_state:
  "state_near P q t \<Longrightarrow> Rebalance P (Some q) t = Inr t' \<Longrightarrow> state_ok P t'"
proof (induction q arbitrary: t t')
  case Nil
  then show ?case using Rebalance_node_state[of P t t'] by simp
next
  case (Cons d q)
  from Cons.prems(2) obtain c where
    c: "Rebalance P (Some q) (child d t) = Inr c" "Rebalance_node P (set_child d c t) = Inr t'"
    by (auto simp: Rebalance_Cons then_do_eq_Inr simp del: Rebalance.simps)
  have nn: "t \<noteq> Null" using c(2) by (cases t) auto
  have sc: "state_ok P c" using Cons.IH[OF _ c(1)] Cons.prems(1) by simp
  show ?case
  proof (rule Rebalance_node_state[OF c(2)])
    show "state_ok P (child Left (set_child d c t))"
      using sc nn Cons.prems(1) by (cases d; cases t) auto
    show "state_ok P (child Right (set_child d c t))"
      using sc nn Cons.prems(1) by (cases d; cases t) auto
  qed
qed

lemma state_near_replace_snoc:
  "state_ok P t \<Longrightarrow> state_ok P c \<Longrightarrow> state_near P q (replace_at (q @ [d]) c t)"
proof (induction q arbitrary: t)
  case Nil
  then show ?case by (cases t; cases d) auto
next
  case (Cons e q)
  show ?case
  proof (cases t)
    case Null
    then show ?thesis by simp
  next
    case (Node l k h s r)
    then show ?thesis using Cons.prems Cons.IH[of "child e t"]
      by (cases e) auto
  qed
qed

lemma state_near_replace_path:
  "state_ok P t \<Longrightarrow> state_near P q n \<Longrightarrow> state_near P (p @ q) (replace_at p n t)"
proof (induction p arbitrary: t)
  case Nil
  then show ?case by simp
next
  case (Cons e p)
  show ?case
  proof (cases t)
    case Null
    then show ?thesis by simp
  next
    case (Node l k h s r)
    then show ?thesis using Cons.prems Cons.IH[of "child e t"]
      by (cases e) auto
  qed
qed

lemma new_Node_state [simp]: "policy_ok P \<Longrightarrow> state_ok P (new_Node P v)"
  by (simp add: policy_ok_def new_Node_def)

subsection \<open>Add\<close>

declare UpdateNodeState.simps(2) [simp del]

declare UpdateNodeState_node [simp]

lemma parent_snoc [simp]: "parent (q @ [d]) = Some q"
  by (cases q) auto

lemma Rebalance_parent_walk:
  assumes "avl t" "slot w t" "avl c"
    "ht c \<le> ht (node_at w t) + 1" "ht (node_at w t) \<le> ht c + 1"
  shows "\<exists>t'. Rebalance P (parent w) (replace_at w c t) = Inr t' \<and> avl t'
           \<and> VisitInOrderImpl t' = VisitInOrderImpl (replace_at w c t)
           \<and> ht t' \<le> ht t + 1 \<and> ht t \<le> ht t' + 1
           \<and> (state_ok P t \<longrightarrow> state_ok P c \<longrightarrow> state_ok P t')"
proof (cases w rule: rev_cases)
  case Nil
  then show ?thesis using assms by simp
next
  case (snoc q d)
  have "near q t (replace_at (q @ [d]) c t)"
    using assms snoc by (intro near_replace_snoc) (auto simp: slot_snoc)
  from Rebalance_walk[OF assms(1) this, of P] obtain t' where
    t': "Rebalance P (Some q) (replace_at (q @ [d]) c t) = Inr t'" "avl t'"
        "VisitInOrderImpl t' = VisitInOrderImpl (replace_at (q @ [d]) c t)"
        "ht t' \<le> ht t + 1" "ht t \<le> ht t' + 1" by blast
  have "state_ok P t \<Longrightarrow> state_ok P c \<Longrightarrow> state_ok P t'"
    using Rebalance_walk_state[OF state_near_replace_snoc t'(1)] .
  then show ?thesis using snoc t' by (auto simp del: Rebalance.simps)
qed

lemma insort_append_less:
  "\<forall>x \<in> set xs. x < v \<Longrightarrow> insort v (xs @ ys) = xs @ insort v ys"
  by (induction xs) auto

lemma insort_ctx:
  "\<forall>x \<in> set xs. x < v \<Longrightarrow> \<forall>y \<in> set ys. v < y \<Longrightarrow> insort v (xs @ ys) = xs @ v # ys"
  by (simp add: insort_append_less insort_is_Cons less_imp_le)

lemma sorted_wrt_ctx:
  "sorted_wrt (<) (xs @ ys) \<Longrightarrow> \<forall>x \<in> set xs. x < v \<Longrightarrow> \<forall>y \<in> set ys. v < y \<Longrightarrow>
     sorted_wrt (<) (xs @ (v::'a::linorder) # ys)"
  by (auto simp: sorted_wrt_append)

lemma new_Node_facts [simp]:
  "avl (new_Node P v)" "ht (new_Node P v) = 1" "VisitInOrderImpl (new_Node P v) = [v]"
  "new_Node P v \<noteq> Null"
  by (simp_all add: new_Node_def)

lemma AddChild_simp:
  "node_at w t = Node l k h s r \<Longrightarrow> child d (Node l k h s r) = Null \<Longrightarrow>
   AddChild P w d v t = Inr (replace_at w (set_child d (new_Node P v) (Node l k h s r)) t)"
  by (simp add: AddChild_def)

lemma Add_present:
  assumes "bst t" "v \<in> set_tree t"
  shows "Add P v t = Inr (False, t)"
proof -
  from assms(2) have nn: "t \<noteq> Null" by auto
  from Find_valid[OF nn, of v] obtain w where w: "Find v t = Some w" "node_at w t \<noteq> Null"
    by blast
  from Find_present[OF assms w(1)] obtain l h s r where "node_at w t = Node l v h s r"
    by (cases "node_at w t") auto
  then show ?thesis using nn w by (simp add: Add_def)
qed

lemma Add_absent:
  assumes "avl t" "bst t" "v \<notin> set_tree t"
  shows "\<exists>t'. Add P v t = Inr (True, t') \<and> avl t' \<and> t' \<noteq> Null
           \<and> VisitInOrderImpl t' = insort v (VisitInOrderImpl t)
           \<and> sorted_wrt (<) (VisitInOrderImpl t')
           \<and> ht t' \<le> ht t + 1 \<and> ht t \<le> ht t' + 1
           \<and> (policy_ok P \<longrightarrow> state_ok P t \<longrightarrow> state_ok P t')
           \<and> (\<forall>w k. Find v t = Some w \<longrightarrow> GetKey (node_at w t) = Some k \<longrightarrow>
                  (v < k \<and> (\<exists>xs ys. VisitInOrderImpl t' = xs @ v # k # ys)) \<or>
                  (k < v \<and> (\<exists>xs ys. VisitInOrderImpl t' = xs @ k # v # ys)))"
proof (cases "t = Null")
  case True
  then show ?thesis by (simp add: Add_def Find_def)
next
  case nn: False
  from Find_valid[OF nn, of v] obtain w where w: "Find v t = Some w" "node_at w t \<noteq> Null"
    by blast
  then obtain l k h s r where W: "node_at w t = Node l k h s r"
    by (cases "node_at w t") auto
  have sl: "slot w t" using w(2) by (rule node_at_slot)
  have aW: "avl (Node l k h s r)" using avl_node_at[OF assms(1), of w] W by simp
  note bounds = Find_bounds[OF assms(2) w(1)]
  have ctx: "VisitInOrderImpl t = before w t @ (VisitInOrderImpl l @ k # VisitInOrderImpl r) @ after w t"
    using inorder_ctx[OF sl] W by simp
  have srt: "sorted_wrt (<) (VisitInOrderImpl t)" using assms(2) by (simp add: bst_def VisitInOrder_def)
  from Find_absent[OF assms(3) w(1) W]
  consider (L) "v < k" "l = Null" | (R) "k < v" "r = Null" by blast
  then show ?thesis
  proof cases
    case L
    let ?c = "node P (new_Node P v) k r"
    have c: "avl ?c" "ht ?c \<le> ht (node_at w t) + 1" "ht (node_at w t) \<le> ht ?c + 1"
      using aW L W by auto
    from Rebalance_parent_walk[OF assms(1) sl c, of P] obtain t' where
      t': "Rebalance P (parent w) (replace_at w ?c t) = Inr t'" "avl t'"
          "VisitInOrderImpl t' = VisitInOrderImpl (replace_at w ?c t)"
          "ht t' \<le> ht t + 1" "ht t \<le> ht t' + 1"
          "state_ok P t \<longrightarrow> state_ok P ?c \<longrightarrow> state_ok P t'" by blast
    have st: "policy_ok P \<longrightarrow> state_ok P t \<longrightarrow> state_ok P t'"
      using t'(6) state_ok_node_at[of P t w] W by auto
    have add: "Add P v t = Inr (True, t')"
      using nn w W L t'(1) sl
      by (simp add: Add_def AddChild_simp Add_finish_def UpdateNodeState_node
               del: Rebalance.simps)
    have ino: "VisitInOrderImpl t' = before w t @ v # (k # VisitInOrderImpl r @ after w t)"
      using t'(3) L by (simp add: inorder_replace_at[OF sl])
    have ctx': "VisitInOrderImpl t = before w t @ (k # VisitInOrderImpl r @ after w t)"
      using ctx L by simp
    have "\<forall>y \<in> set (VisitInOrderImpl r). k < y"
      using srt ctx' by (auto simp: sorted_wrt_append)
    then have gt: "\<forall>y \<in> set (k # VisitInOrderImpl r @ after w t). v < y"
      using bounds L by (auto intro: less_trans)
    have lt: "\<forall>x \<in> set (before w t). x < v" using bounds by simp
    have "VisitInOrderImpl t' = insort v (VisitInOrderImpl t)"
      unfolding ino ctx' using insort_ctx[OF lt gt] by simp
    moreover have "sorted_wrt (<) (VisitInOrderImpl t')"
      unfolding ino using sorted_wrt_ctx[OF _ lt gt] srt ctx' by simp
    moreover have "t' \<noteq> Null" using ino by auto
    moreover have "\<forall>w k. Find v t = Some w \<longrightarrow> GetKey (node_at w t) = Some k \<longrightarrow>
                  (v < k \<and> (\<exists>xs ys. VisitInOrderImpl t' = xs @ v # k # ys)) \<or>
                  (k < v \<and> (\<exists>xs ys. VisitInOrderImpl t' = xs @ k # v # ys))"
      using w(1) W L ino by (auto intro: exI[of _ "before w t"])
    ultimately show ?thesis using add t'(2,4,5) st by simp
  next
    case R
    let ?c = "node P l k (new_Node P v)"
    have c: "avl ?c" "ht ?c \<le> ht (node_at w t) + 1" "ht (node_at w t) \<le> ht ?c + 1"
      using aW R W by auto
    from Rebalance_parent_walk[OF assms(1) sl c, of P] obtain t' where
      t': "Rebalance P (parent w) (replace_at w ?c t) = Inr t'" "avl t'"
          "VisitInOrderImpl t' = VisitInOrderImpl (replace_at w ?c t)"
          "ht t' \<le> ht t + 1" "ht t \<le> ht t' + 1"
          "state_ok P t \<longrightarrow> state_ok P ?c \<longrightarrow> state_ok P t'" by blast
    have st: "policy_ok P \<longrightarrow> state_ok P t \<longrightarrow> state_ok P t'"
      using t'(6) state_ok_node_at[of P t w] W by auto
    have nl: "\<not> v < k" using R by simp
    have add: "Add P v t = Inr (True, t')"
      using nn w W R t'(1) sl nl
      by (simp add: Add_def AddChild_simp Add_finish_def UpdateNodeState_node
               del: Rebalance.simps)
    have ino: "VisitInOrderImpl t' = (before w t @ VisitInOrderImpl l @ [k]) @ v # after w t"
      using t'(3) R by (simp add: inorder_replace_at[OF sl])
    then have inoR: "\<exists>xs ys. VisitInOrderImpl t' = xs @ k # v # ys"
      by (intro exI[of _ "before w t @ VisitInOrderImpl l"] exI[of _ "after w t"]) simp
    have ctx': "VisitInOrderImpl t = (before w t @ VisitInOrderImpl l @ [k]) @ after w t"
      using ctx R by simp
    have "\<forall>x \<in> set (VisitInOrderImpl l). x < k"
      using srt ctx' by (auto simp: sorted_wrt_append)
    then have lt: "\<forall>x \<in> set (before w t @ VisitInOrderImpl l @ [k]). x < v"
      using bounds R by (auto intro: less_trans)
    have gt: "\<forall>y \<in> set (after w t). v < y" using bounds by simp
    have "VisitInOrderImpl t' = insort v (VisitInOrderImpl t)"
      unfolding ino ctx' using insort_ctx[OF lt gt] by simp
    moreover have "sorted_wrt (<) (VisitInOrderImpl t')"
      unfolding ino using sorted_wrt_ctx[OF _ lt gt] srt ctx' by simp
    moreover have "t' \<noteq> Null" using ino by auto
    moreover have "\<forall>w k. Find v t = Some w \<longrightarrow> GetKey (node_at w t) = Some k \<longrightarrow>
                  (v < k \<and> (\<exists>xs ys. VisitInOrderImpl t' = xs @ v # k # ys)) \<or>
                  (k < v \<and> (\<exists>xs ys. VisitInOrderImpl t' = xs @ k # v # ys))"
      using w(1) W R inoR by auto
    ultimately show ?thesis using add t'(2,4,5) st by simp
  qed
qed

subsection \<open>Delete\<close>

lemma replace_at_prefix [simp]: "replace_at p n (replace_at (p @ q) m t) = replace_at p n t"
proof (induction p arbitrary: t)
  case Nil
  show ?case by simp
next
  case (Cons d p)
  show ?case by (cases t; cases d) (auto simp: Cons)
qed

lemma node_at_replace_at_append:
  "slot p t \<Longrightarrow> node_at p (replace_at (p @ q) m t) = replace_at q m (node_at p t)"
proof (induction p arbitrary: t)
  case Nil
  show ?case by simp
next
  case (Cons d p)
  then show ?case by (cases t; cases d) auto
qed

lemma near_replace_path:
  assumes "node_at p t \<noteq> Null" "near q (node_at p t) n"
  shows "near (p @ q) t (replace_at p n t)"
  using assms
proof (induction p arbitrary: t)
  case Nil
  then show ?case by simp
next
  case (Cons d p)
  then obtain l k h s r where t: "t = Node l k h s r" by (cases t) auto
  have "near (p @ q) (child d t) (replace_at p n (child d t))"
    using Cons.prems by (intro Cons.IH) auto
  then show ?case using t by (cases d) auto
qed

lemma descend_Left_node:
  "r \<noteq> Null \<Longrightarrow> \<exists>nk nh ns nr. node_at (descend Left r) r = Node Null nk nh ns nr"
proof (induction r)
  case Null
  then show ?case by simp
next
  case (Node l k h s r)
  then show ?case by (cases "l = Null") auto
qed

lemma descend_Left_before [simp]: "before (descend Left r) r = []"
  by (induction r) auto

lemma descend_Right_node:
  "t \<noteq> Null \<Longrightarrow> \<exists>l k h s. node_at (descend Right t) t = Node l k h s Null"
proof (induction t)
  case Null
  then show ?case by simp
next
  case (Node l k h s r)
  then show ?case by (cases "r = Null") auto
qed

lemma descend_Right_after [simp]: "after (descend Right t) t = []"
  by (induction t) auto

lemma sorted_remove_mid:
  assumes "sorted_wrt (<) (A @ (v::'a::linorder) # B)"
  shows "remove1 v (A @ v # B) = A @ B" "sorted_wrt (<) (A @ B)"
    "set (A @ B) = set (A @ v # B) - {v}"
proof -
  have "v \<notin> set A" "v \<notin> set B" using assms by (auto simp: sorted_wrt_append)
  then show "remove1 v (A @ v # B) = A @ B" "set (A @ B) = set (A @ v # B) - {v}"
    by (auto simp: remove1_append)
  show "sorted_wrt (<) (A @ B)" using assms by (auto simp: sorted_wrt_append)
qed

lemma Delete_absent:
  assumes "v \<notin> set_tree t"
  shows "Delete P v t = Inr (False, t)"
proof (cases "t = Null")
  case True
  then show ?thesis by (simp add: Delete_def Find_def)
next
  case nn: False
  from Find_valid[OF nn, of v] obtain w where w: "Find v t = Some w" "node_at w t \<noteq> Null"
    by blast
  then obtain l k h s r where W: "node_at w t = Node l k h s r"
    by (cases "node_at w t") auto
  from Find_absent[OF assms w(1) W] show ?thesis using w W
    by (auto simp: Delete_def)
qed

lemma Delete_present:
  assumes "avl t" "bst t" "v \<in> set_tree t"
  shows "\<exists>t'. Delete P v t = Inr (True, t') \<and> avl t'
           \<and> VisitInOrderImpl t' = remove1 v (VisitInOrderImpl t)
           \<and> sorted_wrt (<) (VisitInOrderImpl t')
           \<and> set_tree t' = set_tree t - {v}
           \<and> ht t' \<le> ht t + 1 \<and> ht t \<le> ht t' + 1
           \<and> (state_ok P t \<longrightarrow> state_ok P t')"
proof -
  from assms(3) have nn: "t \<noteq> Null" by auto
  from Find_valid[OF nn, of v] obtain p where p: "Find v t = Some p" "node_at p t \<noteq> Null"
    by blast
  from Find_present[OF assms(2,3) p(1)] obtain l h s r where W: "node_at p t = Node l v h s r"
    by (cases "node_at p t") auto
  have sl: "slot p t" using p(2) by (rule node_at_slot)
  have aW: "avl (Node l v h s r)" using avl_node_at[OF assms(1), of p] W by simp
  have ctx: "VisitInOrderImpl t =
      (before p t @ VisitInOrderImpl l) @ v # (VisitInOrderImpl r @ after p t)"
    using inorder_ctx[OF sl] W by simp
  have srt: "sorted_wrt (<) (VisitInOrderImpl t)"
    using assms(2) by (simp add: bst_def VisitInOrder_def)
  have sW: "state_ok P t \<Longrightarrow> state_ok P l \<and> state_ok P r"
    using state_ok_node_at[of P t p] W by simp
  have main: "\<exists>t'. (if r \<noteq> Null
                  then (let nxt = p @ Right # descend Left r
                        in if nxt = p @ [Right] then DeleteNextIsImmediateChild P p t
                           else DeleteNextNotImmediateChild P p nxt t)
                  else DeleteNoRightChild P p t) = Inr t' \<and> avl t'
            \<and> VisitInOrderImpl t' = (before p t @ VisitInOrderImpl l) @ (VisitInOrderImpl r @ after p t)
            \<and> ht t' \<le> ht t + 1 \<and> ht t \<le> ht t' + 1
            \<and> (state_ok P t \<longrightarrow> state_ok P t')"
  proof (cases "r = Null")
    case True
    have c: "avl l" "ht l \<le> ht (node_at p t) + 1" "ht (node_at p t) \<le> ht l + 1"
      using aW W True by auto
    from Rebalance_parent_walk[OF assms(1) sl c, of P] show ?thesis
      using True W sW by (auto simp: DeleteNoRightChild_def inorder_replace_at[OF sl]
                          simp del: Rebalance.simps)
  next
    case rn: False
    from descend_Left_node[OF rn] obtain nk nh ns nr where
      nx: "node_at (descend Left r) r = Node Null nk nh ns nr" by blast
    show ?thesis
    proof (cases "descend Left r = []")
      case True
      with nx have r: "r = Node Null nk nh ns nr" by simp
      let ?n = "Node l nk nh ns nr"
      have "near [] (node_at p t) ?n" using W aW r by auto
      from near_replace_path[OF p(2) this] have "near p t (replace_at p ?n t)" by simp
      from Rebalance_walk[OF assms(1) this, of P] obtain t' where
        t': "Rebalance P (Some p) (replace_at p ?n t) = Inr t'" "avl t'"
            "VisitInOrderImpl t' = VisitInOrderImpl (replace_at p ?n t)"
            "ht t' \<le> ht t + 1" "ht t \<le> ht t' + 1" by blast
      have "state_ok P t \<Longrightarrow> state_near P (p @ []) (replace_at p ?n t)"
        using sW r by (intro state_near_replace_path) auto
      then have "state_ok P t \<Longrightarrow> state_ok P t'"
        using Rebalance_walk_state[OF _ t'(1)] by simp
      then show ?thesis
        using True rn W r t'
        by (auto simp: DeleteNextIsImmediateChild_def inorder_replace_at[OF sl]
                 simp del: Rebalance.simps)
    next
      case False
      let ?m = "descend Left r"
      let ?r1 = "replace_at ?m nr r"
      let ?n = "Node l nk nh ns ?r1"
      obtain q e where m: "?m = q @ [e]" using False by (cases ?m rule: rev_cases) auto
      have ar: "avl r" using aW by simp
      have slm: "slot ?m r" using nx by (intro node_at_slot) simp
      have nq: "node_at q r \<noteq> Null" using slm m by (simp add: slot_snoc)
      have anx: "avl (Node Null nk nh ns nr)" using avl_node_at[OF ar, of ?m] nx by simp
      have nx': "node_at (q @ [e]) r = Node Null nk nh ns nr" using nx unfolding m .
      have "near q r (replace_at (q @ [e]) nr r)"
        using ar nq anx by (intro near_replace_snoc) (auto simp: nx' simp del: node_at_append)
      then have "near (Right # q) (node_at p t) ?n" unfolding m W by simp
      from near_replace_path[OF p(2) this] have nr: "near (p @ Right # q) t (replace_at p ?n t)" .
      have t1: "node_at p (replace_at (p @ Right # ?m) nr t) = Node l v h s ?r1"
        using W by (simp add: node_at_replace_at_append[OF sl])
      have par: "parent (p @ Right # ?m) = Some (p @ Right # q)"
        using m parent_snoc[of "p @ Right # q" e] by simp
      have del: "DeleteNextNotImmediateChild P p (p @ Right # ?m) t =
                   Rebalance P (Some (p @ Right # q)) (replace_at p ?n t)"
        using W nx t1 par
        by (simp add: DeleteNextNotImmediateChild_def Let_def del: Rebalance.simps)
      have ino_r: "VisitInOrderImpl r = nk # VisitInOrderImpl nr @ after ?m r"
        using inorder_ctx[OF slm] nx by simp
      have ino_r1: "VisitInOrderImpl ?r1 = VisitInOrderImpl nr @ after ?m r"
        using inorder_replace_at[OF slm, of nr] by simp
      from Rebalance_walk[OF assms(1) nr, of P] obtain t' where
        t': "Rebalance P (Some (p @ Right # q)) (replace_at p ?n t) = Inr t'" "avl t'"
            "VisitInOrderImpl t' = VisitInOrderImpl (replace_at p ?n t)"
            "ht t' \<le> ht t + 1" "ht t \<le> ht t' + 1" by blast
      have "state_ok P t \<Longrightarrow> state_ok P nr"
        using sW state_ok_node_at[of P r ?m] nx by simp
      then have "state_ok P t \<Longrightarrow> state_near P (Right # q) ?n"
        using sW state_near_replace_snoc[of P r nr q e] unfolding m by simp
      then have "state_ok P t \<Longrightarrow> state_near P (p @ Right # q) (replace_at p ?n t)"
        by (intro state_near_replace_path) auto
      then have "state_ok P t \<Longrightarrow> state_ok P t'"
        using Rebalance_walk_state[OF _ t'(1)] by simp
      then show ?thesis
        using False rn del ino_r ino_r1 t'
        by (auto simp: Let_def inorder_replace_at[OF sl] simp del: Rebalance.simps)
    qed
  qed
  then obtain t' where t': "(if r \<noteq> Null
                  then (let nxt = p @ Right # descend Left r
                        in if nxt = p @ [Right] then DeleteNextIsImmediateChild P p t
                           else DeleteNextNotImmediateChild P p nxt t)
                  else DeleteNoRightChild P p t) = Inr t'" "avl t'"
     "VisitInOrderImpl t' = (before p t @ VisitInOrderImpl l) @ (VisitInOrderImpl r @ after p t)"
     "ht t' \<le> ht t + 1" "ht t \<le> ht t' + 1" "state_ok P t \<longrightarrow> state_ok P t'" by blast
  have "Delete P v t = Inr (True, t')"
    using p W t'(1) by (simp add: Delete_def del: Rebalance.simps)
  moreover note sorted_remove_mid[OF srt[unfolded ctx]]
  ultimately show ?thesis using t' ctx
    by (simp flip: set_inorder del: Rebalance.simps)
qed

subsection \<open>ExtractMax, MergeWithRoot and MergeWith\<close>

lemma node_at_key_in_set: "node_at p t = Node l k h s r \<Longrightarrow> k \<in> set_tree t"
proof (induction p arbitrary: t)
  case Nil
  then show ?case by auto
next
  case (Cons d p)
  then show ?case by (cases t; cases d) auto
qed

lemma ExtractMax_spec:
  assumes "avl t" "t \<noteq> Null"
  shows "\<exists>k h s t'. ExtractMax P t = Inr (Node Null k h s Null, t') \<and> avl t'
           \<and> VisitInOrderImpl t = VisitInOrderImpl t' @ [k]
           \<and> ht t' \<le> ht t + 1 \<and> ht t \<le> ht t' + 1
           \<and> (state_ok P t \<longrightarrow> state_ok P t')"
proof -
  let ?p = "descend Right t"
  from descend_Right_node[OF assms(2)] obtain l k h s where
    W: "node_at ?p t = Node l k h s Null" by blast
  have sl: "slot ?p t" using W by (intro node_at_slot) simp
  have aW: "avl (Node l k h s Null)" using avl_node_at[OF assms(1), of ?p] W by simp
  have c: "avl l" "ht l \<le> ht (node_at ?p t) + 1" "ht (node_at ?p t) \<le> ht l + 1"
    using aW W by auto
  have ctx: "VisitInOrderImpl t = before ?p t @ VisitInOrderImpl l @ [k]"
    using inorder_ctx[OF sl] W by simp
  have "state_ok P t \<Longrightarrow> state_ok P l" using state_ok_node_at[of P t ?p] W by simp
  with Rebalance_parent_walk[OF assms(1) sl c, of P] show ?thesis
    using assms(2) W ctx
    by (auto simp: ExtractMax_def Let_def inorder_replace_at[OF sl] simp del: Rebalance.simps)
qed

lemma MergeWithRoot_descent_spec:
  assumes "avl t" "hMin + 2 \<le> ht t"
  shows "\<exists>p. MergeWithRoot_descent d hMin t = Inr p \<and> node_at p t \<noteq> Null
           \<and> (ht (child d (node_at p t)) = hMin \<or> ht (child d (node_at p t)) = hMin + 1)
           \<and> (d = Right \<longrightarrow> after (p @ [Right]) t = [])
           \<and> (d = Left \<longrightarrow> before (p @ [Left]) t = [])"
  using assms
proof (induction t)
  case Null
  then show ?case by simp
next
  case (Node l k h s r)
  let ?c = "child d (Node l k h s r)"
  show ?case
  proof (cases "hMin + 1 = ht ?c \<or> ht ?c = hMin")
    case True
    then show ?thesis by (cases d) auto
  next
    case False
    have big: "hMin + 2 \<le> ht ?c" using Node.prems False by (cases d) auto
    have ac: "avl ?c" using Node.prems(1) by (rule avl_child)
    have "\<exists>p. MergeWithRoot_descent d hMin ?c = Inr p \<and> node_at p ?c \<noteq> Null
           \<and> (ht (child d (node_at p ?c)) = hMin \<or> ht (child d (node_at p ?c)) = hMin + 1)
           \<and> (d = Right \<longrightarrow> after (p @ [Right]) ?c = [])
           \<and> (d = Left \<longrightarrow> before (p @ [Left]) ?c = [])"
      using Node.IH ac big by (cases d) auto
    then obtain p where p: "MergeWithRoot_descent d hMin ?c = Inr p" "node_at p ?c \<noteq> Null"
      "ht (child d (node_at p ?c)) = hMin \<or> ht (child d (node_at p ?c)) = hMin + 1"
      "d = Right \<longrightarrow> after (p @ [Right]) ?c = []"
      "d = Left \<longrightarrow> before (p @ [Left]) ?c = []" by blast
    have "MergeWithRoot_descent d hMin (Node l k h s r) = Inr (d # p)"
      using False p(1) by (simp add: Let_def)
    then show ?thesis using p(2-5) by (cases d) auto
  qed
qed

lemma MergeWithRoot_spec:
  assumes "avl a" "avl b"
  shows "\<exists>t'. MergeWithRoot P (Node Null k h s Null) a b = Inr (t', Null) \<and> avl t'
           \<and> t' \<noteq> Null
           \<and> VisitInOrderImpl t' = VisitInOrderImpl a @ k # VisitInOrderImpl b
           \<and> (state_ok P a \<longrightarrow> state_ok P b \<longrightarrow> state_ok P t')"
proof -
  consider (bal) "ht a + 1 \<ge> ht b \<and> ht a \<le> ht b + 1"
    | (left) "ht b + 2 \<le> ht a" | (right) "ht a + 2 \<le> ht b" by linarith
  then show ?thesis
  proof cases
    case bal
    then show ?thesis using assms
      by (auto simp: MergeWithRoot_def SetRootAndTwoSubtrees_def)
  next
    case left
    from MergeWithRoot_descent_spec[OF assms(1) left, of Right] obtain p where
      p: "MergeWithRoot_descent Right (ht b) a = Inr p" "node_at p a \<noteq> Null"
         "ht (child Right (node_at p a)) = ht b \<or> ht (child Right (node_at p a)) = ht b + 1"
         "after (p @ [Right]) a = []" by auto
    let ?c = "child Right (node_at p a)"
    let ?N = "node P ?c k b"
    have ac: "avl ?c" using assms(1) by (intro avl_child avl_node_at)
    have N: "avl ?N" "ht ?N \<le> ht (node_at (p @ [Right]) a) + 1"
      "ht (node_at (p @ [Right]) a) \<le> ht ?N + 1"
      using ac assms(2) p(3) by auto
    have nr: "near p a (replace_at (p @ [Right]) ?N a)"
      using assms(1) p(2) N by (rule near_replace_snoc)
    have sl: "slot (p @ [Right]) a" using p(2) by (simp add: slot_snoc)
    have ctx: "VisitInOrderImpl a = before (p @ [Right]) a @ VisitInOrderImpl ?c"
      using inorder_ctx[OF sl] p(4) by simp
    have m: "MergeWithRoot P (Node Null k h s Null) a b =
               then_do (Rebalance P (Some p) (replace_at (p @ [Right]) ?N a)) (\<lambda>t2. Inr (t2, Null))"
      using left p(1)
      by (simp add: MergeWithRoot_def Let_def SetRootAndTwoSubtrees_def del: Rebalance.simps)
    from Rebalance_walk[OF assms(1) nr, of P] obtain t' where
      t': "Rebalance P (Some p) (replace_at (p @ [Right]) ?N a) = Inr t'" "avl t'" "t' \<noteq> Null"
          "VisitInOrderImpl t' = VisitInOrderImpl (replace_at (p @ [Right]) ?N a)" by blast
    have "state_ok P a \<Longrightarrow> state_ok P b \<Longrightarrow> state_ok P ?N"
      using state_ok_child[OF state_ok_node_at[of P a p], of Right] by simp
    then have "state_ok P a \<Longrightarrow> state_ok P b \<Longrightarrow> state_ok P t'"
      using Rebalance_walk_state[OF state_near_replace_snoc t'(1)] by simp
    then show ?thesis
      unfolding m using ctx p(4) t'
      by (auto simp: inorder_replace_at[OF sl] simp del: Rebalance.simps)
  next
    case right
    from MergeWithRoot_descent_spec[OF assms(2) right, of Left] obtain p where
      p: "MergeWithRoot_descent Left (ht a) b = Inr p" "node_at p b \<noteq> Null"
         "ht (child Left (node_at p b)) = ht a \<or> ht (child Left (node_at p b)) = ht a + 1"
         "before (p @ [Left]) b = []" by auto
    let ?c = "child Left (node_at p b)"
    let ?N = "node P a k ?c"
    have ac: "avl ?c" using assms(2) by (intro avl_child avl_node_at)
    have N: "avl ?N" "ht ?N \<le> ht (node_at (p @ [Left]) b) + 1"
      "ht (node_at (p @ [Left]) b) \<le> ht ?N + 1"
      using ac assms(1) p(3) by auto
    have nr: "near p b (replace_at (p @ [Left]) ?N b)"
      using assms(2) p(2) N by (rule near_replace_snoc)
    have sl: "slot (p @ [Left]) b" using p(2) by (simp add: slot_snoc)
    have ctx: "VisitInOrderImpl b = VisitInOrderImpl ?c @ after (p @ [Left]) b"
      using inorder_ctx[OF sl] p(4) by simp
    have ng: "\<not> ht b < ht a" "\<not> ht b \<le> Suc (ht a)" using right by auto
    have m: "MergeWithRoot P (Node Null k h s Null) a b =
               then_do (Rebalance P (Some p) (replace_at (p @ [Left]) ?N b)) (\<lambda>t2. Inr (t2, Null))"
      using right p(1) ng
      by (simp add: MergeWithRoot_def Let_def SetRootAndTwoSubtrees_def del: Rebalance.simps)
    from Rebalance_walk[OF assms(2) nr, of P] obtain t' where
      t': "Rebalance P (Some p) (replace_at (p @ [Left]) ?N b) = Inr t'" "avl t'" "t' \<noteq> Null"
          "VisitInOrderImpl t' = VisitInOrderImpl (replace_at (p @ [Left]) ?N b)" by blast
    have "state_ok P a \<Longrightarrow> state_ok P b \<Longrightarrow> state_ok P ?N"
      using state_ok_child[OF state_ok_node_at[of P b p], of Left] by simp
    then have "state_ok P a \<Longrightarrow> state_ok P b \<Longrightarrow> state_ok P t'"
      using Rebalance_walk_state[OF state_near_replace_snoc t'(1)] by simp
    then show ?thesis
      unfolding m using ctx p(4) t'
      by (auto simp: inorder_replace_at[OF sl] simp del: Rebalance.simps)
  qed
qed

lemma MergeWith_precondition_holds:
  assumes "\<forall>x \<in> set_tree a. \<forall>y \<in> set_tree b. key_less x y"
  shows "MergeWith_precondition key_less a b"
proof (cases "a = Null \<or> b = Null")
  case True
  then show ?thesis by (auto simp: MergeWith_precondition_def)
next
  case False
  then have nn: "a \<noteq> Null" "b \<noteq> Null" by auto
  from descend_Right_node[OF nn(1)] obtain l k h s where
    A: "node_at (descend Right a) a = Node l k h s Null" by blast
  from descend_Left_node[OF nn(2)] obtain nk nh ns nr where
    B: "node_at (descend Left b) b = Node Null nk nh ns nr" by blast
  have "key_less k nk" using assms node_at_key_in_set[OF A] node_at_key_in_set[OF B] by blast
  then show ?thesis using A B nn
    by (simp add: MergeWith_precondition_def GetMax_def GetMin_def GetExtreme_def)
qed

lemma MergeWith_spec:
  assumes "avl a" "avl b" "\<forall>x \<in> set_tree a. \<forall>y \<in> set_tree b. key_less x y"
  shows "\<exists>t'. MergeWith key_less P a b = Inr (t', Null) \<and> avl t'
           \<and> VisitInOrderImpl t' = VisitInOrderImpl a @ VisitInOrderImpl b
           \<and> (state_ok P a \<longrightarrow> state_ok P b \<longrightarrow> state_ok P t')"
proof (cases "a = Null")
  case True
  then show ?thesis using assms MergeWith_precondition_holds[OF assms(3)]
    by (simp add: MergeWith_def)
next
  case False
  from ExtractMax_spec[OF assms(1) False, of P] obtain k h s a' where
    e: "ExtractMax P a = Inr (Node Null k h s Null, a')" "avl a'"
       "VisitInOrderImpl a = VisitInOrderImpl a' @ [k]"
       "state_ok P a \<longrightarrow> state_ok P a'" by blast
  from MergeWithRoot_spec[OF e(2) assms(2), of P k h s] show ?thesis
    using False e MergeWith_precondition_holds[OF assms(3)]
    by (auto simp: MergeWith_def)
qed

subsection \<open>Split\<close>

text \<open>
  \<open>Split_loop_spec\<close> is the invariant of the loop of Split: when the walk has detached the
  subtree at \<open>c\<close>, the accumulators grow by the keys before and after \<open>c\<close>, and the tree
  itself is empty at the end.
\<close>

lemma before_after_snoc:
  assumes "node_at q t = Node l k h s r"
  shows "before (q @ [Left]) t = before q t"
    "after (q @ [Left]) t = k # VisitInOrderImpl r @ after q t"
    "before (q @ [Right]) t = before q t @ VisitInOrderImpl l @ [k]"
    "after (q @ [Right]) t = after q t"
  using assms
proof (induction q arbitrary: t)
  case Nil
  {
    case 1 then show ?case by simp
  next
    case 2 then show ?case by simp
  next
    case 3 then show ?case by simp
  next
    case 4 then show ?case by simp
  }
next
  case (Cons d q)
  {
    case 1 then show ?case using Cons.IH(1)[of "child d t"] by (cases t; cases d) auto
  next
    case 2 then show ?case using Cons.IH(2)[of "child d t"] by (cases t; cases d) auto
  next
    case 3 then show ?case using Cons.IH(3)[of "child d t"] by (cases t; cases d) auto
  next
    case 4 then show ?case using Cons.IH(4)[of "child d t"] by (cases t; cases d) auto
  }
qed

lemma is_left_child_snoc [simp]: "is_left_child (q @ [d]) \<longleftrightarrow> d = Left"
  by (simp add: is_left_child_def)

lemma DoOneSplittingStep_Left:
  assumes "node_at q t = Node l k h s r" "avl rt" "avl r"
  shows "\<exists>rt1. DoOneSplittingStep P q True (replace_at (q @ [Left]) Null t, lt, rt) =
            Inr (is_left_child q, replace_at q Null t, lt, rt1) \<and> avl rt1
          \<and> VisitInOrderImpl rt1 = VisitInOrderImpl rt @ k # VisitInOrderImpl r
          \<and> (state_ok P rt \<longrightarrow> state_ok P r \<longrightarrow> state_ok P rt1)"
proof -
  have sl: "slot q t" using assms(1) by (intro node_at_slot) simp
  have n: "node_at q (replace_at (q @ [Left]) Null t) = Node Null k h s r"
    using assms(1) by (simp add: node_at_replace_at_append[OF sl])
  from MergeWithRoot_spec[OF assms(2,3), of P k "1 + max 0 0" "UpdateBaseState P k None None"]
  show ?thesis
    using n by (auto simp: DoOneSplittingStep_def Let_def node_def)
qed

lemma DoOneSplittingStep_Right:
  assumes "node_at q t = Node l k h s r" "avl lt" "avl l"
  shows "\<exists>lt1. DoOneSplittingStep P q False (replace_at (q @ [Right]) Null t, lt, rt) =
            Inr (is_left_child q, replace_at q Null t, lt1, rt) \<and> avl lt1
          \<and> VisitInOrderImpl lt1 = VisitInOrderImpl l @ k # VisitInOrderImpl lt
          \<and> (state_ok P lt \<longrightarrow> state_ok P l \<longrightarrow> state_ok P lt1)"
proof -
  have sl: "slot q t" using assms(1) by (intro node_at_slot) simp
  have n: "node_at q (replace_at (q @ [Right]) Null t) = Node l k h s Null"
    using assms(1) by (simp add: node_at_replace_at_append[OF sl])
  from MergeWithRoot_spec[OF assms(3,2), of P k "1 + max 0 0" "UpdateBaseState P k None None"]
  show ?thesis
    using n by (auto simp: DoOneSplittingStep_def Let_def node_def)
qed

lemma Split_loop_spec:
  assumes "avl t" "slot c t" "avl lt" "avl rt"
  shows "\<exists>lt' rt'. Split_loop P (parent c) (is_left_child c) (replace_at c Null t, lt, rt)
                     = Inr (Null, lt', rt') \<and> avl lt' \<and> avl rt'
           \<and> VisitInOrderImpl lt' = before c t @ VisitInOrderImpl lt
           \<and> VisitInOrderImpl rt' = VisitInOrderImpl rt @ after c t
           \<and> (state_ok P t \<longrightarrow> state_ok P lt \<longrightarrow> state_ok P rt \<longrightarrow>
                  state_ok P lt' \<and> state_ok P rt')"
  using assms(2-)
proof (induction c arbitrary: lt rt rule: rev_induct)
  case Nil
  then show ?case by simp
next
  case (snoc d q)
  from snoc.prems(1) have nq: "node_at q t \<noteq> Null" by (simp add: slot_snoc)
  then obtain l k h s r where W: "node_at q t = Node l k h s r" by (cases "node_at q t") auto
  have sq: "slot q t" using nq by (rule node_at_slot)
  have aW: "avl l" "avl r" using avl_node_at[OF assms(1), of q] W by auto
  have sW: "state_ok P t \<Longrightarrow> state_ok P l \<and> state_ok P r"
    using state_ok_node_at[of P t q] W by simp
  show ?case
  proof (cases d)
    case Left
    from DoOneSplittingStep_Left[OF W snoc.prems(3) aW(2), of P lt] obtain rt1 where
      s: "DoOneSplittingStep P q True (replace_at (q @ [Left]) Null t, lt, rt) =
            Inr (is_left_child q, replace_at q Null t, lt, rt1)" "avl rt1"
         "VisitInOrderImpl rt1 = VisitInOrderImpl rt @ k # VisitInOrderImpl r"
         "state_ok P rt \<longrightarrow> state_ok P r \<longrightarrow> state_ok P rt1" by blast
    from snoc.IH[OF sq snoc.prems(2) s(2)] show ?thesis
      using Left s before_after_snoc[OF W] sW
      by (auto simp del: Split_loop.simps simp add: Split_loop.simps(2))
  next
    case Right
    from DoOneSplittingStep_Right[OF W snoc.prems(2) aW(1), of P rt] obtain lt1 where
      s: "DoOneSplittingStep P q False (replace_at (q @ [Right]) Null t, lt, rt) =
            Inr (is_left_child q, replace_at q Null t, lt1, rt)" "avl lt1"
         "VisitInOrderImpl lt1 = VisitInOrderImpl l @ k # VisitInOrderImpl lt"
         "state_ok P lt \<longrightarrow> state_ok P l \<longrightarrow> state_ok P lt1" by blast
    from snoc.IH[OF sq s(2) snoc.prems(3)] show ?thesis
      using Right s before_after_snoc[OF W] sW
      by (auto simp del: Split_loop.simps simp add: Split_loop.simps(2))
  qed
qed

lemma bst_node_at: "bst t \<Longrightarrow> bst (node_at p t)"
proof (induction p arbitrary: t)
  case Nil
  then show ?case by simp
next
  case (Cons d p)
  then show ?case by (cases t; cases d) (auto simp: bst_Node)
qed

text \<open>
  The assertion of MergeWith inside Split compares keys with \<open>key_less\<close>.  Split goes
  through when \<open>key_less\<close> holds wherever the comparer does (with \<open>key_less = (<)\<close>, and
  also when the assertion is compiled out, \<open>key_less = (\<lambda>a b. True)\<close>); and a call that
  returns with some \<open>key_less\<close> returns the same trees without the assertion.
\<close>

lemma aborting_Inr [simp]: "aborting (Inr x) = Inr x"
  by (simp add: aborting_def)

lemma aborting_Inl [simp]: "aborting (Inl e) = Inl (Aborted e)"
  by (simp add: aborting_def)

lemma aborting_eq_Inr [simp]: "aborting m = Inr x \<longleftrightarrow> m = Inr x"
  by (cases m) simp_all

lemma MergeWith_precondition_True [simp]: "MergeWith_precondition (\<lambda>a b. True) a b"
  by (rule MergeWith_precondition_holds) simp

lemma MergeWith_without_assertion:
  "MergeWith key_less P a b = Inr x \<Longrightarrow> MergeWith (\<lambda>a b. True) P a b = Inr x"
  by (simp add: MergeWith_def split: if_splits)

lemma then_do_mono:
  assumes "then_do m f = Inr x" "\<And>y. m = Inr y \<Longrightarrow> m' = Inr y"
  shows "then_do m' f = Inr x"
  using assms by (cases m) (simp_all add: then_do_def)

lemma PrepareInitialSplittingState_without_assertion:
  assumes "PrepareInitialSplittingState key_less P p nodeGoesLeft st = Inr x"
  shows "PrepareInitialSplittingState (\<lambda>a b. True) P p nodeGoesLeft st = Inr x"
proof -
  obtain m lt rt where st: "st = (m, lt, rt)" by (cases st) auto
  show ?thesis
  proof (cases "node_at p m")
    case Null
    then show ?thesis using assms st by (simp add: PrepareInitialSplittingState_def)
  next
    case (Node l k h s r)
    show ?thesis
    proof (cases nodeGoesLeft)
      case True
      have "then_do (MergeWith key_less P l (UpdateNodeState P (Node lt k h s rt)))
              (\<lambda>(lt2, mid2). Inr (is_left_child p, replace_at p Null m, lt2, r)) = Inr x"
        using assms st Node True by (simp add: PrepareInitialSplittingState_def Let_def)
      then have "then_do (MergeWith (\<lambda>a b. True) P l (UpdateNodeState P (Node lt k h s rt)))
              (\<lambda>(lt2, mid2). Inr (is_left_child p, replace_at p Null m, lt2, r)) = Inr x"
        by (rule then_do_mono) (rule MergeWith_without_assertion)
      then show ?thesis using st Node True by (simp add: PrepareInitialSplittingState_def Let_def)
    next
      case False
      have "then_do (MergeWith key_less P (UpdateNodeState P (Node lt k h s rt)) r)
              (\<lambda>(mid2, rt2). Inr (is_left_child p, replace_at p Null m, l, mid2)) = Inr x"
        using assms st Node False by (simp add: PrepareInitialSplittingState_def Let_def)
      then have "then_do (MergeWith (\<lambda>a b. True) P (UpdateNodeState P (Node lt k h s rt)) r)
              (\<lambda>(mid2, rt2). Inr (is_left_child p, replace_at p Null m, l, mid2)) = Inr x"
        by (rule then_do_mono) (rule MergeWith_without_assertion)
      then show ?thesis using st Node False by (simp add: PrepareInitialSplittingState_def Let_def)
    qed
  qed
qed

lemma Split_without_assertion:
  assumes "Split key_less P p nodeGoesLeft t = Inr x"
  shows "Split (\<lambda>a b. True) P p nodeGoesLeft t = Inr x"
proof (cases "t = Null")
  case True
  then show ?thesis using assms by (simp add: Split_def)
next
  case False
  then obtain pp where p: "p = Some pp" using assms by (cases p) (simp_all add: Split_def)
  let ?f = "\<lambda>(isLeftChild, st).
                  then_do (Split_loop P (parent pp) isLeftChild st)
                    (\<lambda>(m_root1, lt, rt). Inr (lt, rt))"
  have "then_do (PrepareInitialSplittingState key_less P pp nodeGoesLeft (t, Null, Null)) ?f = Inr x"
    using assms False p by (simp add: Split_def del: Split_loop.simps)
  then have "then_do (PrepareInitialSplittingState (\<lambda>a b. True) P pp nodeGoesLeft (t, Null, Null)) ?f
               = Inr x"
    by (rule then_do_mono) (rule PrepareInitialSplittingState_without_assertion)
  then show ?thesis using False p by (simp add: Split_def del: Split_loop.simps)
qed

lemma PrepareInitialSplittingState_spec:
  assumes "avl t" "bst t" "node_at p t = Node l k h s r" "\<forall>x y. x < y \<longrightarrow> key_less x y"
  shows "\<exists>lt rt. PrepareInitialSplittingState key_less P p nodeGoesLeft (t, Null, Null) =
            Inr (is_left_child p, replace_at p Null t, lt, rt) \<and> avl lt \<and> avl rt
          \<and> VisitInOrderImpl lt = VisitInOrderImpl l @ (if nodeGoesLeft then [k] else [])
          \<and> VisitInOrderImpl rt = (if nodeGoesLeft then [] else [k]) @ VisitInOrderImpl r
          \<and> (state_ok P t \<longrightarrow> state_ok P lt \<and> state_ok P rt)"
proof -
  have aW: "avl l" "avl r" using avl_node_at[OF assms(1), of p] assms(3) by auto
  have bW: "\<forall>x \<in> set_tree l. x < k" "\<forall>x \<in> set_tree r. k < x"
    using bst_node_at[OF assms(2), of p] assms(3) by (auto simp: bst_Node)
  let ?mid = "node P Null k Null"
  have am: "avl ?mid" by simp
  have sW: "state_ok P t \<Longrightarrow> state_ok P l \<and> state_ok P r"
    using state_ok_node_at[of P t p] assms(3) by simp
  show ?thesis
  proof (cases nodeGoesLeft)
    case True
    have "\<forall>x \<in> set_tree l. \<forall>y \<in> set_tree ?mid. key_less x y"
      using bW assms(4) by (simp add: node_def)
    from MergeWith_spec[OF aW(1) am this, of P] show ?thesis
      using True assms(3) aW sW by (auto simp: PrepareInitialSplittingState_def Let_def)
  next
    case False
    have "\<forall>x \<in> set_tree ?mid. \<forall>y \<in> set_tree r. key_less x y"
      using bW assms(4) by (simp add: node_def)
    from MergeWith_spec[OF am aW(2) this, of P] show ?thesis
      using False assms(3) aW sW by (auto simp: PrepareInitialSplittingState_def Let_def)
  qed
qed

lemma Split_spec:
  assumes "avl t" "bst t" "node_at p t = Node l k h s r" "\<forall>x y. x < y \<longrightarrow> key_less x y"
  shows "\<exists>lt rt. Split key_less P (Some p) nodeGoesLeft t = Inr (lt, rt) \<and> avl lt \<and> avl rt
          \<and> VisitInOrderImpl lt =
              before p t @ VisitInOrderImpl l @ (if nodeGoesLeft then [k] else [])
          \<and> VisitInOrderImpl rt =
              (if nodeGoesLeft then [] else [k]) @ VisitInOrderImpl r @ after p t
          \<and> (state_ok P t \<longrightarrow> state_ok P lt \<and> state_ok P rt)"
proof -
  have nn: "t \<noteq> Null" using assms(3) by (cases t) auto
  have sl: "slot p t" using assms(3) by (intro node_at_slot) simp
  from PrepareInitialSplittingState_spec[OF assms, of P nodeGoesLeft] obtain lt rt where
    a: "PrepareInitialSplittingState key_less P p nodeGoesLeft (t, Null, Null) =
            Inr (is_left_child p, replace_at p Null t, lt, rt)" "avl lt" "avl rt"
       "VisitInOrderImpl lt = VisitInOrderImpl l @ (if nodeGoesLeft then [k] else [])"
       "VisitInOrderImpl rt = (if nodeGoesLeft then [] else [k]) @ VisitInOrderImpl r"
       "state_ok P t \<longrightarrow> state_ok P lt \<and> state_ok P rt"
    by blast
  from Split_loop_spec[OF assms(1) sl a(2,3), of P] show ?thesis
    using nn a by (auto simp: Split_def simp del: Split_loop.simps)
qed

subsection \<open>Reachable trees\<close>

lemma bst_iff: "bst t \<longleftrightarrow> sorted_wrt (<) (VisitInOrderImpl t)"
  by (simp add: bst_def VisitInOrder_def)

lemma reachable_invariant:
  "reachable key_less P t \<Longrightarrow> avl t \<and> bst t \<and> (policy_ok P \<longrightarrow> state_ok P t)"
proof (induction rule: reachable.induct)
  case empty
  show ?case by simp
next
  case (add t v b t')
  show ?case
  proof (cases "v \<in> set_tree t")
    case True
    then have "Add P v t = Inr (False, t)" using add Add_present[of t v P] by simp
    then show ?thesis using add by simp
  next
    case False
    from Add_absent[of t v P] False add.IH obtain m where
      m: "Add P v t = Inr (True, m)" "avl m" "sorted_wrt (<) (VisitInOrderImpl m)"
         "policy_ok P \<longrightarrow> state_ok P t \<longrightarrow> state_ok P m" by blast
    then have "t' = m" using add.hyps(2) by simp
    then show ?thesis using m add.IH by (simp add: bst_iff)
  qed
next
  case (delete t v b t')
  show ?case
  proof (cases "v \<in> set_tree t")
    case True
    from Delete_present[of t v P] True delete.IH obtain m where
      m: "Delete P v t = Inr (True, m)" "avl m" "sorted_wrt (<) (VisitInOrderImpl m)"
         "state_ok P t \<longrightarrow> state_ok P m" by blast
    then have "t' = m" using delete.hyps(2) by simp
    then show ?thesis using m delete.IH by (simp add: bst_iff)
  next
    case False
    then have "Delete P v t = Inr (False, t)" by (rule Delete_absent)
    then show ?thesis using delete by simp
  qed
next
  case (merge_this t u t' u')
  have pre: "avl t" "avl u" "sorted_wrt (<) (VisitInOrderImpl t)"
    "sorted_wrt (<) (VisitInOrderImpl u)" using merge_this.IH by (simp_all add: bst_iff)
  have tr: "\<forall>x \<in> set_tree t. \<forall>y \<in> set_tree u. (\<lambda>a b. True) x y" by simp
  from MergeWith_spec[OF pre(1,2) tr, of P] obtain m where
    m: "MergeWith (\<lambda>a b. True) P t u = Inr (m, Null)" "avl m"
       "VisitInOrderImpl m = VisitInOrderImpl t @ VisitInOrderImpl u"
       "state_ok P t \<longrightarrow> state_ok P u \<longrightarrow> state_ok P m" by blast
  have "bst m" using m(3) pre(3,4) merge_this.hyps(3)
    by (simp add: bst_iff sorted_wrt_append set_inorder)
  moreover have "t' = m"
    using m(1) MergeWith_without_assertion[OF merge_this.hyps(4)] by simp
  ultimately show ?case using m merge_this.IH by simp
next
  case (merge_other t u t' u')
  have pre: "avl t" "avl u" using merge_other.IH by simp_all
  have tr: "\<forall>x \<in> set_tree t. \<forall>y \<in> set_tree u. (\<lambda>a b. True) x y" by simp
  from MergeWith_spec[OF pre tr, of P] obtain m where
    "MergeWith (\<lambda>a b. True) P t u = Inr (m, Null)" by blast
  then have "u' = Null" using MergeWith_without_assertion[OF merge_other.hyps(4)] by simp
  then show ?case by simp
next
  case (split_this t p nodeGoesLeft t' u')
  then obtain l k h s r where W: "node_at p t = Node l k h s r"
    by (cases "node_at p t") auto
  have sl: "slot p t" using split_this.hyps(2) by (rule node_at_slot)
  have pre: "avl t" "bst t" using split_this.IH by simp_all
  have tr: "\<forall>x y. x < y \<longrightarrow> (\<lambda>a b. True) x y" by simp
  from Split_spec[OF pre W tr, of P nodeGoesLeft] obtain lt rt where
    s: "Split (\<lambda>a b. True) P (Some p) nodeGoesLeft t = Inr (lt, rt)" "avl lt"
       "VisitInOrderImpl lt =
              before p t @ VisitInOrderImpl l @ (if nodeGoesLeft then [k] else [])"
       "state_ok P t \<longrightarrow> state_ok P lt \<and> state_ok P rt" by blast
  have e: "t' = lt" using s(1) Split_without_assertion[OF split_this.hyps(3)] by simp
  have "sorted_wrt (<) (before p t @ VisitInOrderImpl l @ k # VisitInOrderImpl r @ after p t)"
    using pre(2) inorder_ctx[OF sl] W by (simp add: bst_iff)
  then have "bst lt" unfolding bst_iff s(3)
    by (simp add: sorted_wrt_append)
  then show ?case using e s split_this.IH by simp
next
  case (split_returned t p nodeGoesLeft t' u')
  then obtain l k h s r where W: "node_at p t = Node l k h s r"
    by (cases "node_at p t") auto
  have sl: "slot p t" using split_returned.hyps(2) by (rule node_at_slot)
  have pre: "avl t" "bst t" using split_returned.IH by simp_all
  have tr: "\<forall>x y. x < y \<longrightarrow> (\<lambda>a b. True) x y" by simp
  from Split_spec[OF pre W tr, of P nodeGoesLeft] obtain lt rt where
    s: "Split (\<lambda>a b. True) P (Some p) nodeGoesLeft t = Inr (lt, rt)" "avl rt"
       "VisitInOrderImpl rt =
              (if nodeGoesLeft then [] else [k]) @ VisitInOrderImpl r @ after p t"
       "state_ok P t \<longrightarrow> state_ok P lt \<and> state_ok P rt" by blast
  have e: "u' = rt" using s(1) Split_without_assertion[OF split_returned.hyps(3)] by simp
  have "sorted_wrt (<) (before p t @ VisitInOrderImpl l @ k # VisitInOrderImpl r @ after p t)"
    using pre(2) inorder_ctx[OF sl] W by (simp add: bst_iff)
  then have "bst rt" unfolding bst_iff s(3)
    by (simp add: sorted_wrt_append)
  then show ?case using e s split_returned.IH by simp
qed

lemma sorted_split_sets:
  assumes "sorted_wrt (<) (X @ (k::'a::linorder) # Y)"
  shows "set X = {x \<in> set (X @ k # Y). x < k}" "set Y = {x \<in> set (X @ k # Y). k < x}"
proof -
  have a: "\<forall>x \<in> set X. x < k" and b: "\<forall>y \<in> set Y. k < y"
    using assms by (auto simp: sorted_wrt_append)
  show "set X = {x \<in> set (X @ k # Y). x < k}"
  proof (intro set_eqI iffI)
    fix x assume "x \<in> set X"
    then show "x \<in> {x \<in> set (X @ k # Y). x < k}" using a by simp
  next
    fix x assume "x \<in> {x \<in> set (X @ k # Y). x < k}"
    then have "x < k" "x \<in> set X \<or> x = k \<or> x \<in> set Y" by auto
    then show "x \<in> set X" using b by (auto dest: less_asym)
  qed
  show "set Y = {x \<in> set (X @ k # Y). k < x}"
  proof (intro set_eqI iffI)
    fix x assume "x \<in> set Y"
    then show "x \<in> {x \<in> set (X @ k # Y). k < x}" using b by simp
  next
    fix x assume "x \<in> {x \<in> set (X @ k # Y). k < x}"
    then have "k < x" "x \<in> set X \<or> x = k \<or> x \<in> set Y" by auto
    then show "x \<in> set Y" using a by (auto dest: less_asym)
  qed
qed

text \<open>
  On a reachable tree Add and Delete always return; Split at a live node and MergeWith
  within its precondition return when \<open>key_less\<close> holds wherever the comparer does.
\<close>

lemma reachable_operations_succeed:
  assumes "reachable key_less P t"
  shows "\<exists>b t'. Add P v t = Inr (b, t')"
    and "\<exists>b t'. Delete P v t = Inr (b, t')"
    and "\<forall>x y. x < y \<longrightarrow> key_less x y \<Longrightarrow> node_at p t \<noteq> Null \<Longrightarrow>
           \<exists>t' u'. Split key_less P (Some p) nodeGoesLeft t = Inr (t', u')"
    and "\<forall>x y. x < y \<longrightarrow> key_less x y \<Longrightarrow> reachable key_less P u \<Longrightarrow>
           \<forall>x \<in> set_tree t. \<forall>y \<in> set_tree u. x < y \<Longrightarrow>
           \<exists>t'. MergeWith key_less P t u = Inr (t', Null)"
proof -
  have i: "avl t" "bst t" using reachable_invariant[OF assms] by simp_all
  show "\<exists>b t'. Add P v t = Inr (b, t')"
    using Add_present[OF i(2), of v P] Add_absent[OF i, of v P] by (cases "v \<in> set_tree t") blast+
  show "\<exists>b t'. Delete P v t = Inr (b, t')"
    using Delete_absent[of v t P] Delete_present[OF i, of v P] by (cases "v \<in> set_tree t") blast+
  show "\<exists>t' u'. Split key_less P (Some p) nodeGoesLeft t = Inr (t', u')"
    if ag: "\<forall>x y. x < y \<longrightarrow> key_less x y" and "node_at p t \<noteq> Null"
  proof -
    from that obtain l k h s r where "node_at p t = Node l k h s r"
      by (cases "node_at p t") auto
    from Split_spec[OF i this ag, of P nodeGoesLeft] show ?thesis by blast
  qed
  show "\<exists>t'. MergeWith key_less P t u = Inr (t', Null)"
    if ag: "\<forall>x y. x < y \<longrightarrow> key_less x y" and u: "reachable key_less P u"
      and o: "\<forall>x \<in> set_tree t. \<forall>y \<in> set_tree u. x < y"
  proof -
    have "avl u" using reachable_invariant[OF u] by simp
    moreover have "\<forall>x \<in> set_tree t. \<forall>y \<in> set_tree u. key_less x y" using ag o by blast
    ultimately show ?thesis using MergeWith_spec[OF i(1), of u key_less P] by blast
  qed
qed

subsection \<open>Range sums over correct sums\<close>

text \<open>
  The descent of GetRangeSum is right on a search tree whose nodes store the sums of their
  subtrees: it only skips subtrees without a key in the range, and it only returns a stored
  sum for a subtree that lies inside the range.
\<close>

lemma filter_none: "\<forall>x \<in> set xs. \<not> Q x \<Longrightarrow> filter Q xs = []"
  by (induction xs) auto

lemma filter_all: "\<forall>x \<in> set xs. Q x \<Longrightarrow> filter Q xs = xs"
  by (induction xs) auto

lemma GetRangeSumImpl_correct:
  assumes "bst t" "sums_ok t"
    "knowMin \<longrightarrow> (\<forall>x \<in> set_tree t. minV < x)"
    "knowMax \<longrightarrow> (\<forall>x \<in> set_tree t. x < maxV)"
  shows "GetRangeSumImpl t knowMin minV knowMax maxV lo hi =
           sum_list (filter (in_range lo hi) (VisitInOrderImpl t))"
  using assms
proof (induction t arbitrary: knowMin minV knowMax maxV)
  case Null
  show ?case by simp
next
  case (Node l k h s r)
  have b: "bst l" "bst r" "\<forall>x \<in> set_tree l. x < k" "\<forall>x \<in> set_tree r. k < x"
    using Node.prems(1) by (simp_all add: bst_Node)
  have so: "sums_ok l" "sums_ok r" "s = sum_list (VisitInOrderImpl (Node l k h s r))"
    using Node.prems(2) by simp_all
  show ?case
  proof (cases "knowMin \<and> knowMax \<and> \<not> minV < lo \<and> \<not> hi < maxV")
    case True
    then have "\<forall>x \<in> set (VisitInOrderImpl (Node l k h s r)). in_range lo hi x"
      using Node.prems(3,4) unfolding set_inorder in_range_def by fastforce
    then have "filter (in_range lo hi) (VisitInOrderImpl (Node l k h s r))
                 = VisitInOrderImpl (Node l k h s r)" by (rule filter_all)
    then show ?thesis using True so(3) by simp
  next
    case False
    let ?L = "GetRangeSumImpl l knowMin minV True k lo hi"
    let ?R = "GetRangeSumImpl r True k knowMax maxV lo hi"
    have L: "?L = sum_list (filter (in_range lo hi) (VisitInOrderImpl l))"
      using Node.prems(3) b so(1) by (intro Node.IH(1)) auto
    have R: "?R = sum_list (filter (in_range lo hi) (VisitInOrderImpl r))"
      using Node.prems(4) b so(2) by (intro Node.IH(2)) auto
    have skipL: "sum_list (filter (in_range lo hi) (VisitInOrderImpl l)) = 0"
      if "\<not> ((\<not> knowMin \<and> lo < k) \<or> \<not> min_comp k hi < max_comp minV lo)"
    proof -
      have "\<not> in_range lo hi x" if x: "x \<in> set_tree l" for x
      proof
        assume "in_range lo hi x"
        then have "lo \<le> x" "x \<le> hi" by (simp_all add: in_range_def)
        moreover have "x < k" using x b(3) by simp
        moreover have "knowMin \<Longrightarrow> minV < x" using Node.prems(3) x by simp
        ultimately show False
          using \<open>\<not> ((\<not> knowMin \<and> lo < k) \<or> \<not> min_comp k hi < max_comp minV lo)\<close>
          unfolding min_comp_def max_comp_def by (auto split: if_splits)
      qed
      then have "\<forall>x \<in> set (VisitInOrderImpl l). \<not> in_range lo hi x"
        by (simp add: set_inorder)
      then show ?thesis by (simp add: filter_none)
    qed
    have skipR: "sum_list (filter (in_range lo hi) (VisitInOrderImpl r)) = 0"
      if "\<not> ((\<not> knowMax \<and> k < hi) \<or> \<not> min_comp maxV hi < max_comp k lo)"
    proof -
      have "\<not> in_range lo hi x" if x: "x \<in> set_tree r" for x
      proof
        assume "in_range lo hi x"
        then have "lo \<le> x" "x \<le> hi" by (simp_all add: in_range_def)
        moreover have "k < x" using x b(4) by simp
        moreover have "knowMax \<Longrightarrow> x < maxV" using Node.prems(4) x by simp
        ultimately show False
          using \<open>\<not> ((\<not> knowMax \<and> k < hi) \<or> \<not> min_comp maxV hi < max_comp k lo)\<close>
          unfolding min_comp_def max_comp_def by (auto split: if_splits)
      qed
      then have "\<forall>x \<in> set (VisitInOrderImpl r). \<not> in_range lo hi x"
        by (simp add: set_inorder)
      then show ?thesis by (simp add: filter_none)
    qed
    have "GetRangeSumImpl (Node l k h s r) knowMin minV knowMax maxV lo hi =
        (if in_range lo hi k then k else 0)
        + (if (\<not> knowMin \<and> lo < k) \<or> \<not> min_comp k hi < max_comp minV lo then ?L else 0)
        + (if (\<not> knowMax \<and> k < hi) \<or> \<not> min_comp maxV hi < max_comp k lo then ?R else 0)"
      using False by (auto simp: Let_def in_range_def)
    also have "\<dots> = (if in_range lo hi k then k else 0)
        + sum_list (filter (in_range lo hi) (VisitInOrderImpl l))
        + sum_list (filter (in_range lo hi) (VisitInOrderImpl r))"
      using L R skipL skipR by simp
    also have "\<dots> = sum_list (filter (in_range lo hi) (VisitInOrderImpl (Node l k h s r)))"
      by simp
    finally show ?thesis .
  qed
qed

lemma GetRangeSum_correct_if_sums_ok:
  "bst t \<Longrightarrow> sums_ok t \<Longrightarrow>
   GetRangeSum t lo hi = sum_list (filter (\<lambda>k. lo \<le> k \<and> k \<le> hi) (VisitInOrder t))"
  using GetRangeSumImpl_correct[of t False lo False hi lo hi]
  by (simp add: GetRangeSum_def VisitInOrder_def in_range_def[abs_def])

subsection \<open>The precondition of MergeWith\<close>

lemma GetMax_key:
  "t \<noteq> Null \<Longrightarrow> GetKey (node_at (descend Right t) t) = Some (last (VisitInOrderImpl t))"
proof (induction t)
  case Null
  then show ?case by simp
next
  case (Node l k h s r)
  then show ?case by (cases r) (auto simp: last_append)
qed

lemma GetMin_key:
  "t \<noteq> Null \<Longrightarrow> GetKey (node_at (descend Left t) t) = Some (hd (VisitInOrderImpl t))"
proof (induction t)
  case Null
  then show ?case by simp
next
  case (Node l k h s r)
  then show ?case by (cases l) (auto simp: hd_append)
qed

lemma MergeWith_precondition_iff:
  "t \<noteq> Null \<Longrightarrow> u \<noteq> Null \<Longrightarrow>
   MergeWith_precondition key_less t u \<longleftrightarrow>
     key_less (last (VisitInOrderImpl t)) (hd (VisitInOrderImpl u))"
  by (simp add: MergeWith_precondition_def GetMax_def GetMin_def GetExtreme_def
        GetMax_key GetMin_key)

lemma inorder_eq_Nil [simp]: "VisitInOrderImpl t = [] \<longleftrightarrow> t = Null"
  by (cases t) auto

text \<open>
  Merging a singleton with the key of the split node into the left tree before merging the
  right tree, after a split that routed the key to the right tree, always ends at the
  assertion of MergeWith (here with \<^verbatim>\<open>std::less\<close>, where \<open>key_less\<close> is the
  comparer).  With the assertion compiled out (\<open>key_less = (\<lambda>a b. True)\<close>) the last merge
  returns a balanced tree with the keys of both trees, in the order left tree, right tree:
  it has the key set of the original tree but holds the key of the split node twice.
\<close>

lemma round_trip_with_singleton_fails:
  assumes "avl t" "bst t" "GetKey (node_at p t) = Some k"
  shows "\<exists>L R L1. Split (<) P (Some p) False t = Inr (L, R)
           \<and> MergeWith (<) P L (new_Node P k) = Inr (L1, Null)
           \<and> MergeWith (<) P L1 R = Inl (Assertion_failed
               ''!GetRoot() || !t.GetRoot() || GetMax()->GetKey() < t.GetMin()->GetKey()'')"
proof -
  from assms(3) obtain l h s r where W: "node_at p t = Node l k h s r"
    by (cases "node_at p t") auto
  have sl: "slot p t" using W by (intro node_at_slot) simp
  have ag: "\<forall>x y::'a. x < y \<longrightarrow> x < y" by simp
  from Split_spec[OF assms(1,2) W ag, of P False] obtain L R where
    s: "Split (<) P (Some p) False t = Inr (L, R)" "avl L" "avl R"
       "VisitInOrderImpl L = before p t @ VisitInOrderImpl l"
       "VisitInOrderImpl R = k # VisitInOrderImpl r @ after p t"
    by auto
  have "sorted_wrt (<) ((before p t @ VisitInOrderImpl l) @ k # VisitInOrderImpl r @ after p t)"
    using assms(2) inorder_ctx[OF sl] W by (simp add: bst_iff)
  then have "\<forall>x \<in> set (before p t @ VisitInOrderImpl l). x < k"
    unfolding sorted_wrt_append by simp
  then have ord: "\<forall>x \<in> set_tree L. \<forall>y \<in> set_tree (new_Node P k). x < y"
    using s(4) by (simp add: new_Node_def flip: set_inorder)
  from MergeWith_spec[OF s(2) _ ord, of P] obtain L1 where
    m: "MergeWith (<) P L (new_Node P k) = Inr (L1, Null)"
       "VisitInOrderImpl L1 = VisitInOrderImpl L @ [k]" by auto
  have nn: "L1 \<noteq> Null" "R \<noteq> Null" using m(2) s(5) by auto
  have "\<not> MergeWith_precondition (<) L1 R"
    using MergeWith_precondition_iff[OF nn, of "(<)"] m(2) s(5) by simp
  then have "MergeWith (<) P L1 R = Inl (Assertion_failed
               ''!GetRoot() || !t.GetRoot() || GetMax()->GetKey() < t.GetMin()->GetKey()'')"
    by (simp add: MergeWith_def)
  then show ?thesis using s(1) m(1) by blast
qed

lemma round_trip_with_singleton_without_assertion:
  assumes "avl t" "bst t" "GetKey (node_at p t) = Some k"
  shows "\<exists>L R L1 t'. Split (\<lambda>a b. True) P (Some p) False t = Inr (L, R)
           \<and> MergeWith (\<lambda>a b. True) P L (new_Node P k) = Inr (L1, Null)
           \<and> MergeWith (\<lambda>a b. True) P L1 R = Inr (t', Null)
           \<and> set_tree t' = set_tree t
           \<and> (\<exists>xs ys. VisitInOrder t' = xs @ k # k # ys)
           \<and> \<not> bst t'"
proof -
  from assms(3) obtain l h s r where W: "node_at p t = Node l k h s r"
    by (cases "node_at p t") auto
  have sl: "slot p t" using W by (intro node_at_slot) simp
  have ag: "\<forall>x y::'a. x < y \<longrightarrow> (\<lambda>a b. True) x y" by simp
  from Split_spec[OF assms(1,2) W ag, of P False] obtain L R where
    s: "Split (\<lambda>a b. True) P (Some p) False t = Inr (L, R)" "avl L" "avl R"
       "VisitInOrderImpl L = before p t @ VisitInOrderImpl l"
       "VisitInOrderImpl R = k # VisitInOrderImpl r @ after p t"
    by auto
  have ctx: "VisitInOrderImpl t =
      (before p t @ VisitInOrderImpl l) @ k # VisitInOrderImpl r @ after p t"
    using inorder_ctx[OF sl] W by simp
  have tr1: "\<forall>x \<in> set_tree L. \<forall>y \<in> set_tree (new_Node P k). (\<lambda>a b. True) x y" by simp
  from MergeWith_spec[OF s(2) _ tr1, of P] obtain L1 where
    m: "MergeWith (\<lambda>a b. True) P L (new_Node P k) = Inr (L1, Null)" "avl L1"
       "VisitInOrderImpl L1 = VisitInOrderImpl L @ VisitInOrderImpl (new_Node P k)"
    by (auto simp: new_Node_def)
  have tr2: "\<forall>x \<in> set_tree L1. \<forall>y \<in> set_tree R. (\<lambda>a b. True) x y" by simp
  from MergeWith_spec[OF m(2) s(3) tr2, of P] obtain t' where
    t': "MergeWith (\<lambda>a b. True) P L1 R = Inr (t', Null)"
        "VisitInOrderImpl t' = VisitInOrderImpl L1 @ VisitInOrderImpl R" by blast
  have ino: "VisitInOrderImpl t' =
      (before p t @ VisitInOrderImpl l) @ k # k # (VisitInOrderImpl r @ after p t)"
    using t'(2) m(3) s(4,5) by (simp add: new_Node_def)
  have "set_tree t' = set_tree t"
    using ino ctx set_inorder[of t'] set_inorder[of t] by auto
  moreover have "\<not> bst t'" unfolding bst_iff ino by (simp add: sorted_wrt_append)
  moreover have "\<exists>xs ys. VisitInOrder t' = xs @ k # k # ys"
    unfolding VisitInOrder_def using ino by blast
  ultimately show ?thesis using s(1) m(1) t'(1) by blast
qed

subsection \<open>Order statistics\<close>

lemma GetKey_node_at:
  "GetKey (node_at p t) = Some k \<Longrightarrow> \<exists>l h s r. node_at p t = Node l k h s r"
  by (cases "node_at p t") auto

lemma policy_ok_TreeSize [simp]: "policy_ok TreeSizeNodeBaseType"
  by (simp add: policy_ok_def TreeSizeNodeBaseType_def)

lemma TreeSize_update:
  "UpdateBaseState TreeSizeNodeBaseType k (base_view l) (base_view r) = 1 + GetSize l + GetSize r"
  by (cases l; cases r) (simp_all add: TreeSizeNodeBaseType_def)

lemma GetSize_length:
  "state_ok TreeSizeNodeBaseType t \<Longrightarrow> GetSize t = length (VisitInOrderImpl t)"
  by (induction t) (auto simp: TreeSize_update)

lemma GetNthSmallestImpl_spec:
  assumes "state_ok TreeSizeNodeBaseType t"
  shows "(i < length (VisitInOrderImpl t) \<longrightarrow>
           (\<exists>p. GetNthSmallestImpl t i = Inr p
              \<and> GetKey (node_at p t) = Some (VisitInOrderImpl t ! i)))
       \<and> (length (VisitInOrderImpl t) \<le> i \<longrightarrow>
           GetNthSmallestImpl t i = Inl (Invalid_argument ''Index out of range''))"
  using assms
proof (induction t arbitrary: i)
  case Null
  show ?case by simp
next
  case (Node l k h sz r)
  have sl: "state_ok TreeSizeNodeBaseType l" and sr: "state_ok TreeSizeNodeBaseType r"
    using Node.prems by simp_all
  have szl: "GetSize l = length (VisitInOrderImpl l)"
    and szr: "GetSize r = length (VisitInOrderImpl r)"
    using sl sr by (simp_all add: GetSize_length)
  have sz: "sz = 1 + length (VisitInOrderImpl l) + length (VisitInOrderImpl r)"
    using Node.prems szl szr by (simp add: TreeSize_update)
  have ls: "(if l \<noteq> Null then GetSize l else 0) = length (VisitInOrderImpl l)"
    using szl by (cases l) auto
  consider (out) "sz \<le> i" | (left) "i < length (VisitInOrderImpl l)"
    | (here) "i = length (VisitInOrderImpl l)"
    | (right) "length (VisitInOrderImpl l) < i" "i < sz" by linarith
  then show ?case
  proof cases
    case out
    then show ?thesis using sz by simp
  next
    case left
    from Node.IH(1)[OF sl, of i] left obtain p where
      p: "GetNthSmallestImpl l i = Inr p" "GetKey (node_at p l) = Some (VisitInOrderImpl l ! i)"
      by blast
    show ?thesis using left p sz ls by (simp add: Let_def nth_append)
  next
    case here
    then show ?thesis using sz ls by (simp add: Let_def nth_append)
  next
    case right
    let ?j = "i - length (VisitInOrderImpl l) - 1"
    have j: "?j < length (VisitInOrderImpl r)" using right sz by simp
    from Node.IH(2)[OF sr, of ?j] j obtain p where
      p: "GetNthSmallestImpl r ?j = Inr p" "GetKey (node_at p r) = Some (VisitInOrderImpl r ! ?j)"
      by blast
    have "(VisitInOrderImpl l @ k # VisitInOrderImpl r) ! i = VisitInOrderImpl r ! ?j"
      using right by (simp add: nth_append nth_Cons')
    then show ?thesis using right p sz ls by (simp add: Let_def)
  qed
qed

subsection \<open>Split and MergeWith when the assertion agrees with the comparer\<close>

text \<open>
  The assertion of MergeWith apart, Split and MergeWith do what the specification says:
  when \<open>key_less\<close> holds wherever the comparer does (as with \<^verbatim>\<open>std::less\<close>, or with
  the assertion compiled out), Split at a live node with key \<open>k\<close> leaves the keys less
  than \<open>k\<close> in the tree and returns the keys greater than \<open>k\<close>, with \<open>k\<close> on the side
  the flag names, and MergeWith of two trees with every key of the first less than every key
  of the second leaves their union in the first and empties the second.
\<close>

lemma Split_keys_if_key_less_agrees:
  assumes "avl t" "bst t" "GetKey (node_at p t) = Some k" "\<forall>x y. x < y \<longrightarrow> key_less x y"
  shows "\<exists>lt rt. Split key_less P (Some p) keyGoesLeft t = Inr (lt, rt)
           \<and> set_tree lt = {x \<in> set_tree t. x < k} \<union> (if keyGoesLeft then {k} else {})
           \<and> set_tree rt = {x \<in> set_tree t. k < x} \<union> (if keyGoesLeft then {} else {k})"
proof -
  from GetKey_node_at[OF assms(3)] obtain l h s r where W: "node_at p t = Node l k h s r"
    by blast
  have sl: "slot p t" using W by (intro node_at_slot) simp
  from Split_spec[OF assms(1,2) W assms(4), of P keyGoesLeft] obtain lt rt where
    s: "Split key_less P (Some p) keyGoesLeft t = Inr (lt, rt)"
       "VisitInOrderImpl lt =
          before p t @ VisitInOrderImpl l @ (if keyGoesLeft then [k] else [])"
       "VisitInOrderImpl rt =
          (if keyGoesLeft then [] else [k]) @ VisitInOrderImpl r @ after p t"
    by blast
  have ctx: "VisitInOrderImpl t =
      (before p t @ VisitInOrderImpl l) @ k # (VisitInOrderImpl r @ after p t)"
    using inorder_ctx[OF sl] W by simp
  have srt: "sorted_wrt (<) ((before p t @ VisitInOrderImpl l) @ k # (VisitInOrderImpl r @ after p t))"
    using assms(2) ctx by (simp add: bst_iff)
  note sp = sorted_split_sets[OF srt, folded ctx, unfolded set_inorder]
  have "set_tree lt = {x \<in> set_tree t. x < k} \<union> (if keyGoesLeft then {k} else {})"
    using s(2) sp(1) by (auto simp flip: set_inorder)
  moreover have "set_tree rt = {x \<in> set_tree t. k < x} \<union> (if keyGoesLeft then {} else {k})"
    using s(3) sp(2) by (auto simp flip: set_inorder)
  ultimately show ?thesis using s(1) by blast
qed

lemma MergeWith_keys_if_key_less_agrees:
  assumes "avl t" "avl otherTree" "\<forall>x \<in> set_tree t. \<forall>y \<in> set_tree otherTree. x < y"
    "\<forall>x y. x < y \<longrightarrow> key_less x y"
  shows "\<exists>t'. MergeWith key_less P t otherTree = Inr (t', Null)
           \<and> set_tree t' = set_tree t \<union> set_tree otherTree
           \<and> VisitInOrder t' = VisitInOrder t @ VisitInOrder otherTree"
proof -
  have "\<forall>x \<in> set_tree t. \<forall>y \<in> set_tree otherTree. key_less x y" using assms(3,4) by blast
  from MergeWith_spec[OF assms(1,2) this, of P] obtain t' where
    t': "MergeWith key_less P t otherTree = Inr (t', Null)"
        "VisitInOrderImpl t' = VisitInOrderImpl t @ VisitInOrderImpl otherTree" by blast
  have "set_tree t' = set_tree t \<union> set_tree otherTree"
    using t'(2) by (simp flip: set_inorder)
  then show ?thesis using t' by (simp add: VisitInOrder_def)
qed

section \<open>Invariant preservation\<close>

text \<open>
  C1: starting from the empty tree, every tree that a sequence of Add, Delete, MergeWith and
  Split calls produces (each call within its preconditions: MergeWith on trees whose keys
  are ordered, Split at a live node) satisfies, at every node, the AVL balance condition on
  the heights of the two subtrees and the equation stored height = 1 + max of the children's
  stored heights (0 for an absent child), and its in-order traversal is strictly ascending
  in the order of the comparer.  This holds whatever \<^verbatim>\<open>operator<\<close> of the keys is: the
  assertion of MergeWith can only stop a call, not change what a call that returns leaves.
\<close>

theorem reachable_avl_invariants:
  "reachable key_less P t \<Longrightarrow>
   avl_balanced t \<and> heights_ok t \<and> sorted_wrt (<) (VisitInOrder t)"
  using reachable_invariant[of key_less P t] by (simp add: avl_iff bst_def)

lemma Add_unit_5: "Add DefaultNodeBaseType (5::int) Null = Inr (True, Node Null 5 1 () Null)"
  by code_simp

lemma Add_unit_3:
  "Add DefaultNodeBaseType (3::int) (Node Null 5 1 () Null)
     = Inr (True, Node (Node Null 3 1 () Null) 5 2 () Null)"
  by code_simp

lemma Add_unit_8:
  "Add DefaultNodeBaseType (8::int) (Node (Node Null 3 1 () Null) 5 2 () Null)
     = Inr (True, Node (Node Null 3 1 () Null) 5 2 () (Node Null 8 1 () Null))"
  by code_simp

lemma Split_unit_3:
  "Split (<) DefaultNodeBaseType (Some [Left]) True
      (Node (Node Null 3 1 () Null) (5::int) 2 () (Node Null 8 1 () Null))
     = Inr (Node Null 3 1 () Null, Node Null 5 2 () (Node Null 8 1 () Null))"
  by code_simp

lemma MergeWith_unit:
  "MergeWith (<) DefaultNodeBaseType (Node Null (3::int) 1 () Null)
      (Node Null 5 2 () (Node Null 8 1 () Null))
     = Inr (Node (Node Null 3 1 () Null) 5 2 () (Node Null 8 1 () Null), Null)"
  by code_simp

lemma Delete_unit_5:
  "Delete DefaultNodeBaseType (5::int)
      (Node (Node Null 3 1 () Null) 5 2 () (Node Null 8 1 () Null))
     = Inr (True, Node (Node Null 3 1 () Null) 8 2 () Null)"
  by code_simp

theorem reachable_avl_invariants_witness:
  "reachable (<) DefaultNodeBaseType (Node (Node Null 3 1 () Null) (8::int) 2 () Null)
   \<and> avl_balanced (Node (Node Null 3 1 () Null) (8::int) 2 () Null)
   \<and> heights_ok (Node (Node Null 3 1 () Null) (8::int) 2 () Null)
   \<and> sorted_wrt (<) (VisitInOrder (Node (Node Null 3 1 () Null) (8::int) 2 () Null))"
proof -
  let ?T = "Node (Node Null 3 1 () Null) (5::int) 2 () (Node Null 8 1 () Null)"
  let ?L = "Node Null (3::int) 1 () Null"
  let ?R = "Node Null (5::int) 2 () (Node Null 8 1 () Null)"
  have t: "reachable (<) DefaultNodeBaseType ?T"
    by (rule reachable.add[OF reachable.add[OF reachable.add[OF reachable.empty Add_unit_5]
          Add_unit_3] Add_unit_8])
  have live: "node_at [Left] ?T \<noteq> Null" by simp
  have l: "reachable (<) DefaultNodeBaseType ?L"
    by (rule reachable.split_this[OF t live Split_unit_3])
  have r: "reachable (<) DefaultNodeBaseType ?R"
    by (rule reachable.split_returned[OF t live Split_unit_3])
  have ord: "\<forall>x \<in> set_tree ?L. \<forall>y \<in> set_tree ?R. x < y" by simp
  have m: "reachable (<) DefaultNodeBaseType ?T"
    by (rule reachable.merge_this[OF l r ord MergeWith_unit])
  have d: "reachable (<) DefaultNodeBaseType (Node (Node Null 3 1 () Null) (8::int) 2 () Null)"
    by (rule reachable.delete[OF m Delete_unit_5])
  from reachable_avl_invariants[OF d] show ?thesis using d by blast
qed

section \<open>Insertion and deletion\<close>

text \<open>
  C6: on a tree that satisfies the invariants, Add(v) returns false and leaves the tree as
  it is when v is present; when v is absent it returns true, the key set becomes the old
  one plus v, and the in-order sequence is the old one with v inserted in order.  The new
  leaf hangs off the node w that Find located: v comes right before the key of w in the
  in-order sequence when v compares less (left child), right after it when v compares
  greater (right child).
\<close>

theorem Add_result:
  assumes "avl t" "bst t"
  shows "(v \<in> set_tree t \<longrightarrow> Add P v t = Inr (False, t)) \<and>
         (v \<notin> set_tree t \<longrightarrow>
            (\<exists>t'. Add P v t = Inr (True, t') \<and> set_tree t' = insert v (set_tree t)
               \<and> VisitInOrder t' = insort v (VisitInOrder t)
               \<and> (\<forall>w k. Find v t = Some w \<longrightarrow> GetKey (node_at w t) = Some k \<longrightarrow>
                    (v < k \<and> (\<exists>xs ys. VisitInOrder t' = xs @ v # k # ys)) \<or>
                    (k < v \<and> (\<exists>xs ys. VisitInOrder t' = xs @ k # v # ys)))))"
proof (intro conjI impI)
  assume "v \<in> set_tree t"
  then show "Add P v t = Inr (False, t)" using assms(2) by (intro Add_present)
next
  assume "v \<notin> set_tree t"
  from Add_absent[OF assms this, of P] obtain t' where
    t': "Add P v t = Inr (True, t')"
        "VisitInOrderImpl t' = insort v (VisitInOrderImpl t)"
        "\<forall>w k. Find v t = Some w \<longrightarrow> GetKey (node_at w t) = Some k \<longrightarrow>
                  (v < k \<and> (\<exists>xs ys. VisitInOrderImpl t' = xs @ v # k # ys)) \<or>
                  (k < v \<and> (\<exists>xs ys. VisitInOrderImpl t' = xs @ k # v # ys))"
    by blast
  have "set_tree t' = insert v (set_tree t)"
    using t'(2) by (simp flip: set_inorder add: set_insort_key)
  then show "\<exists>t'. Add P v t = Inr (True, t') \<and> set_tree t' = insert v (set_tree t)
               \<and> VisitInOrder t' = insort v (VisitInOrder t)
               \<and> (\<forall>w k. Find v t = Some w \<longrightarrow> GetKey (node_at w t) = Some k \<longrightarrow>
                    (v < k \<and> (\<exists>xs ys. VisitInOrder t' = xs @ v # k # ys)) \<or>
                    (k < v \<and> (\<exists>xs ys. VisitInOrder t' = xs @ k # v # ys)))"
    using t' unfolding VisitInOrder_def by blast
qed

theorem Add_result_witness:
  "avl (Node (Node Null 3 1 () Null) (5::int) 2 () (Node Null 8 1 () Null))
   \<and> bst (Node (Node Null 3 1 () Null) (5::int) 2 () (Node Null 8 1 () Null))
   \<and> 5 \<in> set_tree (Node (Node Null 3 1 () Null) (5::int) 2 () (Node Null 8 1 () Null))
   \<and> 7 \<notin> set_tree (Node (Node Null 3 1 () Null) (5::int) 2 () (Node Null 8 1 () Null))
   \<and> Add DefaultNodeBaseType 5 (Node (Node Null 3 1 () Null) (5::int) 2 () (Node Null 8 1 () Null))
       = Inr (False, Node (Node Null 3 1 () Null) (5::int) 2 () (Node Null 8 1 () Null))
   \<and> (\<exists>t'. Add DefaultNodeBaseType 7
              (Node (Node Null 3 1 () Null) (5::int) 2 () (Node Null 8 1 () Null))
            = Inr (True, t')
          \<and> set_tree t' = {3, 5, 7, 8} \<and> VisitInOrder t' = [3, 5, 7, 8])"
proof -
  let ?T = "Node (Node Null 3 1 () Null) (5::int) 2 () (Node Null 8 1 () Null)"
  have a: "avl ?T" by simp
  have b: "bst ?T" by (simp add: bst_def VisitInOrder_def)
  have c: "5 \<in> set_tree ?T" "7 \<notin> set_tree ?T" by simp_all
  have d: "insert 7 (set_tree ?T) = {3, 5, 7, 8}" by auto
  have e: "insort 7 (VisitInOrder ?T) = [3, 5, 7, 8]" by (simp add: VisitInOrder_def)
  from Add_result[OF a b, of 5 DefaultNodeBaseType] c
  have p: "Add DefaultNodeBaseType 5 ?T = Inr (False, ?T)" by blast
  from Add_result[OF a b, of 7 DefaultNodeBaseType] c
  have "\<exists>t'. Add DefaultNodeBaseType 7 ?T = Inr (True, t')
          \<and> set_tree t' = insert 7 (set_tree ?T) \<and> VisitInOrder t' = insort 7 (VisitInOrder ?T)"
    by blast
  then have q: "\<exists>t'. Add DefaultNodeBaseType 7 ?T = Inr (True, t')
          \<and> set_tree t' = {3, 5, 7, 8} \<and> VisitInOrder t' = [3, 5, 7, 8]"
    unfolding d e .
  show ?thesis using a b c p q by blast
qed

text \<open>
  C7: Delete(v) returns false and leaves the tree as it is when no node holds v; on a tree
  that satisfies the invariants and holds v it returns true and the key set becomes the old
  one minus v (the in-order sequence is the old one without v).
\<close>

theorem Delete_result:
  assumes "avl t" "bst t"
  shows "(v \<notin> set_tree t \<longrightarrow> Delete P v t = Inr (False, t)) \<and>
         (v \<in> set_tree t \<longrightarrow>
            (\<exists>t'. Delete P v t = Inr (True, t') \<and> set_tree t' = set_tree t - {v}
               \<and> VisitInOrder t' = remove1 v (VisitInOrder t)))"
proof (intro conjI impI)
  assume "v \<notin> set_tree t"
  then show "Delete P v t = Inr (False, t)" by (rule Delete_absent)
next
  assume "v \<in> set_tree t"
  from Delete_present[OF assms this, of P]
  show "\<exists>t'. Delete P v t = Inr (True, t') \<and> set_tree t' = set_tree t - {v}
               \<and> VisitInOrder t' = remove1 v (VisitInOrder t)"
    unfolding VisitInOrder_def by blast
qed

theorem Delete_result_witness:
  "avl (Node (Node Null 3 1 () Null) (5::int) 2 () (Node Null 8 1 () Null))
   \<and> bst (Node (Node Null 3 1 () Null) (5::int) 2 () (Node Null 8 1 () Null))
   \<and> 5 \<in> set_tree (Node (Node Null 3 1 () Null) (5::int) 2 () (Node Null 8 1 () Null))
   \<and> 7 \<notin> set_tree (Node (Node Null 3 1 () Null) (5::int) 2 () (Node Null 8 1 () Null))
   \<and> Delete DefaultNodeBaseType 7 (Node (Node Null 3 1 () Null) (5::int) 2 () (Node Null 8 1 () Null))
       = Inr (False, Node (Node Null 3 1 () Null) (5::int) 2 () (Node Null 8 1 () Null))
   \<and> (\<exists>t'. Delete DefaultNodeBaseType 5
              (Node (Node Null 3 1 () Null) (5::int) 2 () (Node Null 8 1 () Null))
            = Inr (True, t')
          \<and> set_tree t' = {3, 8} \<and> VisitInOrder t' = [3, 8])"
proof -
  let ?T = "Node (Node Null 3 1 () Null) (5::int) 2 () (Node Null 8 1 () Null)"
  have a: "avl ?T" by simp
  have b: "bst ?T" by (simp add: bst_def VisitInOrder_def)
  have c: "5 \<in> set_tree ?T" "7 \<notin> set_tree ?T" by simp_all
  have d: "set_tree ?T - {5} = {3, 8}" by auto
  have e: "remove1 5 (VisitInOrder ?T) = [3, 8]" by (simp add: VisitInOrder_def)
  from Delete_result[OF a b, of 7 DefaultNodeBaseType] c
  have p: "Delete DefaultNodeBaseType 7 ?T = Inr (False, ?T)" by blast
  from Delete_result[OF a b, of 5 DefaultNodeBaseType] c
  have "\<exists>t'. Delete DefaultNodeBaseType 5 ?T = Inr (True, t')
          \<and> set_tree t' = set_tree ?T - {5} \<and> VisitInOrder t' = remove1 5 (VisitInOrder ?T)"
    by blast
  then have q: "\<exists>t'. Delete DefaultNodeBaseType 5 ?T = Inr (True, t')
          \<and> set_tree t' = {3, 8} \<and> VisitInOrder t' = [3, 8]"
    unfolding d e .
  show ?thesis using a b c p q by blast
qed

section \<open>Split and merge\<close>

text \<open>
  C3: Split at a live node p with key k leaves in the tree exactly the keys that compare
  less than k and returns exactly the keys that compare greater, with k itself on the side
  that keyGoesLeft names.  The code does so when \<^verbatim>\<open>operator<\<close> of the keys holds wherever
  the comparer does (\<open>Split_keys_if_key_less_agrees\<close>), and not in general: Split merges
  the node p with one of its subtrees through MergeWith, whose assertion (line 301) compares
  the two keys with \<^verbatim>\<open>operator<\<close> where the rest of the class calls \<^verbatim>\<open>m_comp\<close>.  In an
  \<^verbatim>\<open>AVLTree<int, std::greater<int>>\<close>, after Add of 5, 8 and 3 the root 5 has the left child
  8 and the right child 3, and Split at the node that Find(5) returns ends at the assertion
  for both values of the flag (it evaluates \<^verbatim>\<open>5 < 3\<close>, and \<^verbatim>\<open>8 < 5\<close> when the key goes
  left).
\<close>

theorem Split_aborts_under_greater:
  "Add_all DefaultNodeBaseType [Key 5, Key 8, Key 3] Null
     = Inr (Node (Node Null (Key 8) 1 () Null) (Key 5) 2 () (Node Null (Key 3) 1 () Null))
   \<and> Find (Key 5) (Node (Node Null (Key 8) 1 () Null) (Key 5) 2 () (Node Null (Key 3) 1 () Null))
     = Some []
   \<and> Split int_less DefaultNodeBaseType (Some []) False
        (Node (Node Null (Key 8) 1 () Null) (Key 5) 2 () (Node Null (Key 3) 1 () Null))
     = Inl (Aborted (Assertion_failed
         ''!GetRoot() || !t.GetRoot() || GetMax()->GetKey() < t.GetMin()->GetKey()''))
   \<and> Split int_less DefaultNodeBaseType (Some []) True
        (Node (Node Null (Key 8) 1 () Null) (Key 5) 2 () (Node Null (Key 3) 1 () Null))
     = Inl (Aborted (Assertion_failed
         ''!GetRoot() || !t.GetRoot() || GetMax()->GetKey() < t.GetMin()->GetKey()''))"
  by code_simp

text \<open>
  C4: when every key of this tree compares less than every key of otherTree, MergeWith
  leaves the union of the two key sets in this tree and empties otherTree.  The code does so
  when \<^verbatim>\<open>operator<\<close> of the keys holds wherever the comparer does
  (\<open>MergeWith_keys_if_key_less_agrees\<close>), and not in general: its assertion (line 301)
  tests the precondition with \<^verbatim>\<open>operator<\<close> and not with \<^verbatim>\<open>m_comp\<close>.  In an
  \<^verbatim>\<open>AVLTree<int, std::greater<int>>\<close> the tree built by Add of 8 and 5 and the tree built
  by Add of 3 and 1 are within the precondition (8 and 5 each come before 3 and 1 in the
  order of the comparer), and MergeWith ends at the assertion, which evaluates
  \<^verbatim>\<open>5 < 3\<close>.
\<close>

theorem MergeWith_aborts_under_greater:
  "Add_all DefaultNodeBaseType [Key 8, Key 5] Null
     = Inr (Node Null (Key 8) 2 () (Node Null (Key 5) 1 () Null))
   \<and> Add_all DefaultNodeBaseType [Key 3, Key 1] Null
     = Inr (Node Null (Key 3) 2 () (Node Null (Key 1) 1 () Null))
   \<and> VisitInOrder (Node Null (Key 8) 2 () (Node Null (Key 5) 1 () Null)) = [Key 8, Key 5]
   \<and> VisitInOrder (Node Null (Key 3) 2 () (Node Null (Key 1) 1 () Null)) = [Key 3, Key 1]
   \<and> Key 8 < Key 3 \<and> Key 8 < Key 1 \<and> Key 5 < Key 3 \<and> Key 5 < Key 1
   \<and> MergeWith int_less DefaultNodeBaseType
        (Node Null (Key 8) 2 () (Node Null (Key 5) 1 () Null))
        (Node Null (Key 3) 2 () (Node Null (Key 1) 1 () Null))
     = Inl (Assertion_failed
         ''!GetRoot() || !t.GetRoot() || GetMax()->GetKey() < t.GetMin()->GetKey()'')"
  by code_simp

text \<open>
  C9, as stated: split at p with the key routed right, merge a singleton holding the key of
  p into the left tree, then merge the right tree into it.  After Split(p, false) the right
  tree already holds the key of p, so the last MergeWith is called outside its precondition
  and its assertion fails: with \<^verbatim>\<open>std::less<int>\<close>, on the tree 3, 5, 8 split at 5 the
  left tree is 3, it becomes 3, 5 with the singleton, and merging the right tree 5, 8 stops
  at the assertion.  It does so on every tree (\<open>round_trip_with_singleton_fails\<close>); with
  the assertion compiled out the result has the key set of the original tree but holds the
  key of p twice (\<open>round_trip_with_singleton_without_assertion\<close>).
\<close>

theorem Split_MergeWith_round_trip_counterexample:
  "Split (<) DefaultNodeBaseType (Some []) False
      (Node (Node Null 3 1 () Null) (5::int) 2 () (Node Null 8 1 () Null))
     = Inr (Node Null 3 1 () Null, Node Null 5 2 () (Node Null 8 1 () Null))
   \<and> Add DefaultNodeBaseType (5::int) Null = Inr (True, Node Null 5 1 () Null)
   \<and> MergeWith (<) DefaultNodeBaseType (Node Null (3::int) 1 () Null) (Node Null 5 1 () Null)
     = Inr (Node Null 3 2 () (Node Null 5 1 () Null), Null)
   \<and> MergeWith (<) DefaultNodeBaseType (Node Null (3::int) 2 () (Node Null 5 1 () Null))
        (Node Null 5 2 () (Node Null 8 1 () Null))
     = Inl (Assertion_failed
         ''!GetRoot() || !t.GetRoot() || GetMax()->GetKey() < t.GetMin()->GetKey()'')"
  by code_simp

text \<open>
  C9, amended: on a tree that satisfies the invariants and whose comparer is
  \<^verbatim>\<open>operator<\<close> of its keys (\<^verbatim>\<open>std::less\<close>, the default), Split(p, false) at a live
  node p followed by merging the returned tree into the tree that stayed gives back the
  original key set (and the original in-order sequence).
\<close>

theorem Split_MergeWith_round_trip:
  assumes "avl t" "bst t" "GetKey (node_at p t) = Some k"
  shows "\<exists>L R t'. Split (<) P (Some p) False t = Inr (L, R)
           \<and> MergeWith (<) P L R = Inr (t', Null)
           \<and> set_tree t' = set_tree t \<and> VisitInOrder t' = VisitInOrder t"
proof -
  from GetKey_node_at[OF assms(3)] obtain l h s r where W: "node_at p t = Node l k h s r"
    by blast
  have sl: "slot p t" using W by (intro node_at_slot) simp
  have ag: "\<forall>x y::'a. x < y \<longrightarrow> x < y" by simp
  from Split_spec[OF assms(1,2) W ag, of P False] obtain L R where
    s: "Split (<) P (Some p) False t = Inr (L, R)" "avl L" "avl R"
       "VisitInOrderImpl L = before p t @ VisitInOrderImpl l"
       "VisitInOrderImpl R = k # VisitInOrderImpl r @ after p t"
    by auto
  have ctx: "VisitInOrderImpl t = VisitInOrderImpl L @ VisitInOrderImpl R"
    using inorder_ctx[OF sl] W s(4,5) by simp
  have "sorted_wrt (<) (VisitInOrderImpl L @ VisitInOrderImpl R)"
    using assms(2) ctx by (simp add: bst_iff)
  then have ord: "\<forall>x \<in> set_tree L. \<forall>y \<in> set_tree R. x < y"
    by (simp add: sorted_wrt_append set_inorder)
  from MergeWith_spec[OF s(2,3) ord, of P] obtain t' where
    t': "MergeWith (<) P L R = Inr (t', Null)"
        "VisitInOrderImpl t' = VisitInOrderImpl L @ VisitInOrderImpl R" by blast
  have "set_tree t' = set_tree t" using t'(2) ctx set_inorder[of t'] set_inorder[of t] by simp
  then show ?thesis using s(1) t' ctx by (simp add: VisitInOrder_def)
qed

theorem Split_MergeWith_round_trip_witness:
  "avl (Node (Node (Node Null 1 2 () (Node Null 2 1 () Null)) 3 3 () (Node Null 4 1 () Null))
          (5::int) 4 ()
          (Node (Node (Node Null 6 1 () Null) 7 2 () Null) 8 3 () (Node Null 9 1 () Null)))
   \<and> bst (Node (Node (Node Null 1 2 () (Node Null 2 1 () Null)) 3 3 () (Node Null 4 1 () Null))
          (5::int) 4 ()
          (Node (Node (Node Null 6 1 () Null) 7 2 () Null) 8 3 () (Node Null 9 1 () Null)))
   \<and> GetKey (node_at [Left, Left, Right]
        (Node (Node (Node Null 1 2 () (Node Null 2 1 () Null)) 3 3 () (Node Null 4 1 () Null))
          (5::int) 4 ()
          (Node (Node (Node Null 6 1 () Null) 7 2 () Null) 8 3 () (Node Null 9 1 () Null))))
       = Some 2
   \<and> (\<exists>L R t'. Split (<) DefaultNodeBaseType (Some [Left, Left, Right]) False
        (Node (Node (Node Null 1 2 () (Node Null 2 1 () Null)) 3 3 () (Node Null 4 1 () Null))
          (5::int) 4 ()
          (Node (Node (Node Null 6 1 () Null) 7 2 () Null) 8 3 () (Node Null 9 1 () Null)))
        = Inr (L, R)
        \<and> MergeWith (<) DefaultNodeBaseType L R = Inr (t', Null)
        \<and> set_tree t' = {1, 2, 3, 4, 5, 6, 7, 8, 9}
        \<and> VisitInOrder t' = [1, 2, 3, 4, 5, 6, 7, 8, 9])"
proof -
  let ?T = "Node (Node (Node Null 1 2 () (Node Null 2 1 () Null)) 3 3 () (Node Null 4 1 () Null))
          (5::int) 4 ()
          (Node (Node (Node Null 6 1 () Null) 7 2 () Null) 8 3 () (Node Null 9 1 () Null))"
  have a: "avl ?T" by simp
  have b: "bst ?T" by (simp add: bst_def VisitInOrder_def)
  have c: "GetKey (node_at [Left, Left, Right] ?T) = Some 2" by simp
  have d: "set_tree ?T = {1, 2, 3, 4, 5, 6, 7, 8, 9}" by auto
  have e: "VisitInOrder ?T = [1, 2, 3, 4, 5, 6, 7, 8, 9]" by (simp add: VisitInOrder_def)
  from Split_MergeWith_round_trip[OF a b c, of DefaultNodeBaseType]
  have "\<exists>L R t'. Split (<) DefaultNodeBaseType (Some [Left, Left, Right]) False ?T = Inr (L, R)
          \<and> MergeWith (<) DefaultNodeBaseType L R = Inr (t', Null)
          \<and> set_tree t' = {1, 2, 3, 4, 5, 6, 7, 8, 9}
          \<and> VisitInOrder t' = [1, 2, 3, 4, 5, 6, 7, 8, 9]"
    unfolding d e .
  then show ?thesis using a b c by blast
qed

text \<open>
  C10: on an empty tree, Split does not fail for any node handle, the null handle
  included: it returns an empty tree and the tree stays empty.  The handle is tested after
  \<^verbatim>\<open>m_root\<close>.
\<close>

theorem Split_empty_tree: "Split key_less P p nodeGoesLeft Null = Inr (Null, Null)"
  by (simp add: Split_def)

text \<open>
  C5, as stated, for every tree: Split with a null handle fails with invalid-argument.
  On the empty tree it does not: it returns an empty tree.
\<close>

theorem Split_null_handle_counterexample:
  "Split (<) DefaultNodeBaseType None False (Null :: (int, unit) tree) = Inr (Null, Null)
   \<and> \<not> (\<exists>msg m. Split (<) DefaultNodeBaseType None False (Null :: (int, unit) tree)
                 = Inl (Thrown (Invalid_argument msg) m))"
  by (simp add: Split_def)

text \<open>
  C5, amended: on every non-empty tree, Split with a null handle throws
  \<^verbatim>\<open>std::invalid_argument\<close> and the tree is left unchanged: the exception leaves behind the
  tree \<open>m_root\<close> that Split was called on.
\<close>

theorem Split_null_handle:
  "m_root \<noteq> Null \<Longrightarrow>
   Split key_less P None nodeGoesLeft m_root =
     Inl (Thrown (Invalid_argument ''Split: the p argument must be non-null'') m_root)"
  by (simp add: Split_def)

theorem Split_null_handle_witness:
  "Node (Node Null 3 1 () Null) (5::int) 2 () Null \<noteq> Null \<and>
   Split (<) DefaultNodeBaseType None True (Node (Node Null 3 1 () Null) (5::int) 2 () Null) =
     Inl (Thrown (Invalid_argument ''Split: the p argument must be non-null'')
            (Node (Node Null 3 1 () Null) (5::int) 2 () Null))"
  using Split_null_handle
    [of "Node (Node Null 3 1 () Null) (5::int) 2 () Null" "(<)" DefaultNodeBaseType True]
  by simp

section \<open>Order statistics and range sums\<close>

text \<open>
  C8: for a tree built with the size policy (n its number of nodes), GetNthSmallest(i)
  returns for every i < n the node whose key is the i-th element, counted from 0, of the
  in-order traversal, and it fails exactly when i >= n, the empty tree included.  The
  exception is \<^verbatim>\<open>std::invalid_argument\<close> with the message "Index out of range".
\<close>

theorem GetNthSmallest_result:
  assumes "reachable key_less TreeSizeNodeBaseType t"
  shows "(\<forall>i. i < length (VisitInOrder t) \<longrightarrow>
            (\<exists>p. GetNthSmallest t i = Inr p
               \<and> GetKey (node_at p t) = Some (VisitInOrder t ! i)))
       \<and> (\<forall>i. (\<exists>e. GetNthSmallest t i = Inl e) \<longleftrightarrow> length (VisitInOrder t) \<le> i)
       \<and> (\<forall>i. length (VisitInOrder t) \<le> i \<longrightarrow>
            GetNthSmallest t i = Inl (Invalid_argument ''Index out of range''))"
proof -
  have s: "state_ok TreeSizeNodeBaseType t" using reachable_invariant[OF assms] by simp
  note sp = GetNthSmallestImpl_spec[OF s]
  have a: "\<And>i. i < length (VisitInOrder t) \<Longrightarrow>
            (\<exists>p. GetNthSmallest t i = Inr p
               \<and> GetKey (node_at p t) = Some (VisitInOrder t ! i))"
    using sp by (simp add: GetNthSmallest_def VisitInOrder_def)
  have b: "\<And>i. length (VisitInOrder t) \<le> i \<Longrightarrow>
            GetNthSmallest t i = Inl (Invalid_argument ''Index out of range'')"
    using sp by (simp add: GetNthSmallest_def VisitInOrder_def)
  have c: "\<And>i. (\<exists>e. GetNthSmallest t i = Inl e) \<longleftrightarrow> length (VisitInOrder t) \<le> i"
  proof
    fix i assume "\<exists>e. GetNthSmallest t i = Inl e"
    then show "length (VisitInOrder t) \<le> i" using a[of i] by (cases "i < length (VisitInOrder t)") auto
  next
    fix i assume "length (VisitInOrder t) \<le> i"
    then show "\<exists>e. GetNthSmallest t i = Inl e" using b by blast
  qed
  show ?thesis using a b c by blast
qed

lemma Add_5: "Add TreeSizeNodeBaseType (5::int) Null = Inr (True, Node Null 5 1 1 Null)"
  by code_simp

lemma Add_3: "Add TreeSizeNodeBaseType (3::int) (Node Null 5 1 1 Null)
                = Inr (True, Node (Node Null 3 1 1 Null) 5 2 2 Null)"
  by code_simp

lemma Add_8: "Add TreeSizeNodeBaseType (8::int) (Node (Node Null 3 1 1 Null) 5 2 2 Null)
                = Inr (True, Node (Node Null 3 1 1 Null) 5 2 3 (Node Null 8 1 1 Null))"
  by code_simp

theorem GetNthSmallest_result_witness:
  "reachable (<) TreeSizeNodeBaseType
     (Node (Node Null 3 1 1 Null) (5::int) 2 (3::nat) (Node Null 8 1 1 Null))
   \<and> (\<exists>p. GetNthSmallest
            (Node (Node Null 3 1 1 Null) (5::int) 2 (3::nat) (Node Null 8 1 1 Null)) 2 = Inr p
          \<and> GetKey (node_at p
              (Node (Node Null 3 1 1 Null) (5::int) 2 (3::nat) (Node Null 8 1 1 Null)))
              = Some 8)
   \<and> GetNthSmallest
        (Node (Node Null 3 1 1 Null) (5::int) 2 (3::nat) (Node Null 8 1 1 Null)) 3
       = Inl (Invalid_argument ''Index out of range'')"
proof -
  let ?T = "Node (Node Null 3 1 1 Null) (5::int) 2 (3::nat) (Node Null 8 1 1 Null)"
  have r: "reachable (<) TreeSizeNodeBaseType ?T"
    by (rule reachable.add[OF reachable.add[OF reachable.add[OF reachable.empty Add_5] Add_3] Add_8])
  have v: "VisitInOrder ?T = [3, 5, 8]" by (simp add: VisitInOrder_def)
  have g1: "2 < length (VisitInOrder ?T)" and g2: "length (VisitInOrder ?T) \<le> 3"
    by (simp_all add: VisitInOrder_def)
  from conjunct1[OF GetNthSmallest_result[OF r], rule_format, OF g1]
  have a: "\<exists>p. GetNthSmallest ?T 2 = Inr p \<and> GetKey (node_at p ?T) = Some 8"
    unfolding v by simp
  from conjunct2[OF conjunct2[OF GetNthSmallest_result[OF r]], rule_format, OF g2]
  have b: "GetNthSmallest ?T 3 = Inl (Invalid_argument ''Index out of range'')" .
  show ?thesis using r a b by blast
qed

text \<open>
  C2: GetRangeSum on a tree built with the sum augmentation.  No such tree can be built:
  \<^verbatim>\<open>SumNodeBaseType::UpdateNodeState\<close> adds \<^verbatim>\<open>p1->key\<close> and \<^verbatim>\<open>p2->key\<close> where the
  size policy next to it adds \<^verbatim>\<open>p1->treeSize\<close> and \<^verbatim>\<open>p2->treeSize\<close>, and
  \<^verbatim>\<open>SumNodeBaseType\<close> has no member \<^verbatim>\<open>key\<close>, so the class template does not compile
  with this policy.  The descent of GetRangeSum itself is right: on every search tree whose
  nodes store the sums of their subtrees, which is what \<^verbatim>\<open>sum += p1->sum\<close> would
  maintain, it returns the sum of the keys in the range
  (\<open>GetRangeSum_correct_if_sums_ok\<close>).
\<close>

end
